theory Spec2Isabelle
  imports Main "HOL-Library.Multiset"
begin

section \<open>JavaScript values handed to the logger\<close>

text \<open>
  The arguments of a log call are arbitrary JavaScript values (\<^verbatim>\<open>Array<any>\<close>).
  Primitives are constructors of \<open>jsval\<close>; an object is a reference \<open>JRef a\<close> into an
  object heap, so that object graphs with cycles can be written down. Numbers are
  restricted to NaN and the safe integers, those between \<open>- 2 ^ 53\<close> and \<open>2 ^ 53\<close>
  exclusive (\<^verbatim>\<open>Number.isSafeInteger\<close>): each of them is a number of JavaScript, and
  \<^verbatim>\<open>Number.prototype.toString\<close> and \<^verbatim>\<open>JSON.stringify\<close> print it as its decimal
  digits. \<open>safe n\<close> is the number \<open>n\<close> when \<open>n\<close> is in that range, and \<open>numeric_value\<close>
  reads it back. Fractions, larger numbers (which print rounded, or with an
  exponent), the infinities, the negative zero, symbols and big integers are left
  out. An object records what \<^verbatim>\<open>encode\<close> and
  \<^verbatim>\<open>JSON.stringify\<close> observe of it: whether it is an array, its own enumerable
  string-keyed properties in \<^verbatim>\<open>Object.keys\<close> order (for an array: its elements),
  and the value read from its \<^verbatim>\<open>constructor\<close> property. Objects with a
  \<^verbatim>\<open>toJSON\<close> method, getters and proxies are outside this model. An address the
  heap does not list denotes an empty plain object. A function value carries its name
  and its source text (what \<^verbatim>\<open>toString\<close> returns).
\<close>

type_synonym addr = nat

typedef safe_integer = "{n :: int. - (2 ^ 53) < n \<and> n < 2 ^ 53}"
  morphisms numeric_value safe
  by (rule exI [of _ 0]) simp

datatype jsval =
    JUndefined
  | JNull
  | JBool bool
  | JNum safe_integer
  | JNaN
  | JStr string
  | JFunction string string
  | JRef addr

record jsobject =
  isArray :: bool
  ownProps :: "(string \<times> jsval) list"
  constructorProp :: jsval

type_synonym objheap = "(addr \<times> jsobject) list"

datatype error = TypeError | NotInitialised | TransactionInactiveError

fun typeof_js :: "jsval \<Rightarrow> string" where
  "typeof_js JUndefined = ''undefined''"
| "typeof_js JNull = ''object''"
| "typeof_js (JBool b) = ''boolean''"
| "typeof_js (JNum n) = ''number''"
| "typeof_js JNaN = ''number''"
| "typeof_js (JStr s) = ''string''"
| "typeof_js (JFunction name src) = ''function''"
| "typeof_js (JRef a) = ''object''"

text \<open>\<^verbatim>\<open>!item\<close> is \<open>\<not> truthy item\<close>.\<close>

fun truthy :: "jsval \<Rightarrow> bool" where
  "truthy JUndefined = False"
| "truthy JNull = False"
| "truthy (JBool b) = b"
| "truthy (JNum n) = (numeric_value n \<noteq> 0)"
| "truthy JNaN = False"
| "truthy (JStr s) = (s \<noteq> [])"
| "truthy (JFunction name src) = True"
| "truthy (JRef a) = True"

subsection \<open>Number and string conversion of the platform\<close>

definition digit_char :: "nat \<Rightarrow> char" where
  "digit_char d = ''0123456789'' ! d"

function show_nat :: "nat \<Rightarrow> string" where
  "show_nat n = (if n < 10 then [digit_char n] else show_nat (n div 10) @ [digit_char (n mod 10)])"
  by pat_completeness auto

termination show_nat
  by (relation "measure id") auto

declare show_nat.simps [simp del]

definition show_int :: "int \<Rightarrow> string" where
  "show_int i = (if i < 0 then CHR ''-'' # show_nat (nat (- i)) else show_nat (nat i))"

text \<open>\<^verbatim>\<open>Number.prototype.toString\<close>, on the numbers of this model.\<close>

definition Number_toString :: "safe_integer \<Rightarrow> string" where
  "Number_toString n = show_int (numeric_value n)"

definition hex_char :: "nat \<Rightarrow> char" where
  "hex_char d = ''0123456789abcdef'' ! d"

definition json_escape :: "char \<Rightarrow> string" where
  "json_escape c =
     (if c = CHR 0x22 then [CHR 0x5C, CHR 0x22]
      else if c = CHR 0x5C then [CHR 0x5C, CHR 0x5C]
      else if c = CHR 0x08 then [CHR 0x5C, CHR ''b'']
      else if c = CHR 0x0C then [CHR 0x5C, CHR ''f'']
      else if c = CHR 0x0A then [CHR 0x5C, CHR ''n'']
      else if c = CHR 0x0D then [CHR 0x5C, CHR ''r'']
      else if c = CHR 0x09 then [CHR 0x5C, CHR ''t'']
      else if (of_char c :: nat) < 32
        then [CHR 0x5C, CHR ''u'', CHR ''0'', CHR ''0'',
              hex_char ((of_char c :: nat) div 16), hex_char ((of_char c :: nat) mod 16)]
      else [c])"

definition json_quote :: "string \<Rightarrow> string" where
  "json_quote s = CHR 0x22 # concat (map json_escape s) @ [CHR 0x22]"

fun join :: "string \<Rightarrow> string list \<Rightarrow> string" where
  "join sep [] = []"
| "join sep [x] = x"
| "join sep (x # y # ys) = x @ sep @ join sep (y # ys)"

fun sequence_sum :: "('e + 'a) list \<Rightarrow> 'e + 'a list" where
  "sequence_sum [] = Inr []"
| "sequence_sum (Inl e # rs) = Inl e"
| "sequence_sum (Inr x # rs) = (case sequence_sum rs of Inl e \<Rightarrow> Inl e | Inr xs \<Rightarrow> Inr (x # xs))"

definition array_text :: "string option list \<Rightarrow> string" where
  "array_text parts =
     ''['' @ join '','' (map (\<lambda>p. case p of None \<Rightarrow> ''null'' | Some s \<Rightarrow> s) parts) @ '']''"

definition object_text :: "(string \<times> string option) list \<Rightarrow> string" where
  "object_text members =
     ''{'' @ join '','' (concat (map (\<lambda>(k, p). case p of None \<Rightarrow> []
                                          | Some s \<Rightarrow> [json_quote k @ '':'' @ s]) members)) @ ''}''"

text \<open>
  \<^verbatim>\<open>JSON.stringify\<close> of the platform, on the values of this model. The result is
  \<open>Inr None\<close> where JavaScript returns \<^verbatim>\<open>undefined\<close>, and \<open>Inl TypeError\<close> where it
  throws: an object that is reached again while it is still being serialised
  (it is on the stack) is a circular structure.
\<close>

function JSON_stringify :: "objheap \<Rightarrow> addr list \<Rightarrow> jsval \<Rightarrow> error + string option" where
  "JSON_stringify h stack JUndefined = Inr None"
| "JSON_stringify h stack JNull = Inr (Some ''null'')"
| "JSON_stringify h stack (JBool b) = Inr (Some (if b then ''true'' else ''false''))"
| "JSON_stringify h stack (JNum n) = Inr (Some (Number_toString n))"
| "JSON_stringify h stack JNaN = Inr (Some ''null'')"
| "JSON_stringify h stack (JStr s) = Inr (Some (json_quote s))"
| "JSON_stringify h stack (JFunction name src) = Inr None"
| "JSON_stringify h stack (JRef a) =
     (if a \<in> set stack then Inl TypeError
      else case map_of h a of
        None \<Rightarrow> Inr (Some ''{}'')
      | Some ob \<Rightarrow>
          (case sequence_sum (map (\<lambda>kv. JSON_stringify h (a # stack) (snd kv)) (ownProps ob)) of
             Inl e \<Rightarrow> Inl e
           | Inr parts \<Rightarrow>
               Inr (Some (if isArray ob then array_text parts
                          else object_text (zip (map fst (ownProps ob)) parts)))))"
  by pat_completeness auto

termination JSON_stringify
proof (relation "measure (\<lambda>(h, stack, v). length (filter (\<lambda>x. x \<notin> set stack) (map fst h)))")
  show "wf (measure (\<lambda>(h, stack, v). length (filter (\<lambda>x. x \<notin> set stack) (map fst h))))"
    by simp
next
  fix h :: objheap and stack :: "addr list" and a ob and kv :: "string \<times> jsval"
  assume fresh: "a \<notin> set stack" and "map_of h a = Some ob"
  then have listed: "a \<in> set (map fst h)"
    by (metis map_of_eq_None_iff option.distinct(1) set_map)
  have shrink: "a \<in> set xs \<Longrightarrow>
      length (filter (\<lambda>x. x \<notin> set (a # stack)) xs) < length (filter (\<lambda>x. x \<notin> set stack) xs)"
    for xs
  proof (induction xs)
    case Nil
    then show ?case by simp
  next
    case (Cons x xs)
    have le: "length (filter (\<lambda>x. x \<notin> set (a # stack)) xs)
        \<le> length (filter (\<lambda>x. x \<notin> set stack) xs)"
      by (induction xs) auto
    show ?case
    proof (cases "x = a")
      case True
      with fresh le show ?thesis by simp
    next
      case False
      with Cons show ?thesis by auto
    qed
  qed
  from shrink [OF listed]
  show "((h, a # stack, snd kv), (h, stack, JRef a))
      \<in> measure (\<lambda>(h, stack, v). length (filter (\<lambda>x. x \<notin> set stack) (map fst h)))"
    by simp
qed

subsection \<open>The argument encoder (Utilities.encode)\<close>

text \<open>
  What \<^verbatim>\<open>encode\<close> reads of its item besides the JSON text: \<^verbatim>\<open>Object.keys(item)\<close>,
  \<^verbatim>\<open>item.constructor\<close>, \<^verbatim>\<open>item.constructor.name\<close> (reading a property of
  \<^verbatim>\<open>null\<close> or \<^verbatim>\<open>undefined\<close> throws a TypeError) and \<^verbatim>\<open>item.toString()\<close>.
  \<open>toString_js\<close> is \<open>None\<close> for the values that have no \<^verbatim>\<open>toString\<close> function.
\<close>

fun Object_keys :: "objheap \<Rightarrow> jsval \<Rightarrow> string list" where
  "Object_keys h (JRef a) = (case map_of h a of None \<Rightarrow> [] | Some ob \<Rightarrow> map fst (ownProps ob))"
| "Object_keys h (JStr s) = map show_nat [0 ..< length s]"
| "Object_keys h v = []"

fun get_constructor :: "objheap \<Rightarrow> jsval \<Rightarrow> error + jsval" where
  "get_constructor h JUndefined = Inl TypeError"
| "get_constructor h JNull = Inl TypeError"
| "get_constructor h (JBool b) = Inr (JFunction ''Boolean'' ''function Boolean() { [native code] }'')"
| "get_constructor h (JNum n) = Inr (JFunction ''Number'' ''function Number() { [native code] }'')"
| "get_constructor h JNaN = Inr (JFunction ''Number'' ''function Number() { [native code] }'')"
| "get_constructor h (JStr s) = Inr (JFunction ''String'' ''function String() { [native code] }'')"
| "get_constructor h (JFunction name src) =
     Inr (JFunction ''Function'' ''function Function() { [native code] }'')"
| "get_constructor h (JRef a) =
     (case map_of h a of
        None \<Rightarrow> Inr (JFunction ''Object'' ''function Object() { [native code] }'')
      | Some ob \<Rightarrow> Inr (constructorProp ob))"

fun get_name :: "objheap \<Rightarrow> jsval \<Rightarrow> error + jsval" where
  "get_name h JUndefined = Inl TypeError"
| "get_name h JNull = Inl TypeError"
| "get_name h (JFunction name src) = Inr (JStr name)"
| "get_name h (JRef a) =
     (case map_of h a of
        None \<Rightarrow> Inr JUndefined
      | Some ob \<Rightarrow> (case map_of (ownProps ob) ''name'' of None \<Rightarrow> Inr JUndefined | Some v \<Rightarrow> Inr v))"
| "get_name h v = Inr JUndefined"

fun toString_js :: "jsval \<Rightarrow> string option" where
  "toString_js JUndefined = None"
| "toString_js JNull = None"
| "toString_js (JBool b) = Some (if b then ''true'' else ''false'')"
| "toString_js (JNum n) = Some (Number_toString n)"
| "toString_js JNaN = Some ''NaN''"
| "toString_js (JStr s) = Some s"
| "toString_js (JFunction name src) = Some src"
| "toString_js (JRef a) = Some ''[object Object]''"

definition js_of_text :: "string option \<Rightarrow> jsval" where
  "js_of_text t = (case t of None \<Rightarrow> JUndefined | Some s \<Rightarrow> JStr s)"

text \<open>
  \<^verbatim>\<open>
  export function encode(item: any): string {
      if (!item) {
          return "";
      } else if(typeof item === "object") {
          const encoded = JSON.stringify(item);
          if(encoded === "{}" && Object.keys(item).length !== 0) {
              if(typeof item.constructor === "object") {
                  if(typeof item.constructor.name === "string") {
                      return item.constructor.name;
                  }
              }
          }
          return encoded;
      }
      if(typeof item.toString === "function") {
          return item.toString();
      }
      return item;
  }
  \<close>
  An exception of \<^verbatim>\<open>JSON.stringify\<close> or of a property read is not caught: it is the
  result \<open>Inl\<close>.
\<close>

definition encode :: "objheap \<Rightarrow> jsval \<Rightarrow> error + jsval" where
  "encode h item =
     (if \<not> truthy item then Inr (JStr [])
      else if typeof_js item = ''object'' then
        (case JSON_stringify h [] item of
           Inl e \<Rightarrow> Inl e
         | Inr encoded \<Rightarrow>
             if encoded = Some ''{}'' \<and> length (Object_keys h item) \<noteq> 0 then
               (case get_constructor h item of
                  Inl e \<Rightarrow> Inl e
                | Inr ctor \<Rightarrow>
                    if typeof_js ctor = ''object'' then
                      (case get_name h ctor of
                         Inl e \<Rightarrow> Inl e
                       | Inr nm \<Rightarrow> if typeof_js nm = ''string'' then Inr nm
                                  else Inr (js_of_text encoded))
                    else Inr (js_of_text encoded))
             else Inr (js_of_text encoded))
      else (case toString_js item of
              Some s \<Rightarrow> Inr (JStr s)
            | None \<Rightarrow> Inr item))"

section \<open>Log records\<close>

datatype VerbosityLevel = ERROR | WARNING | NOTICE | INFO | DEBUG

datatype Date = Date int

fun getTime :: "Date \<Rightarrow> int" where
  "getTime (Date t) = t"

text \<open>
  A \<^verbatim>\<open>Date\<close> is its time value, in milliseconds since the epoch; invalid dates are
  left out. \<^verbatim>\<open>LogDetails\<close> and \<^verbatim>\<open>StoredDetails\<close> share their fields, at different
  types:
  \<^item> \<open>LogDetails\<close>, what the caller passes: the timestamp is a \<open>Date\<close>, the arguments are
    arbitrary values, and \<open>namespaces\<close> is a reference to an array (the address of
    the array in the heap of namespace arrays);
  \<^item> \<open>StoredDetails\<close>, a record of the pending queue: the timestamp is a number, the
    arguments are encoded, and \<open>namespaces\<close> is still the reference it was given (the
    object spread copies the reference, not the array);
  \<^item> \<open>DurableDetails\<close>, a record as the object store or the JSON text holds it, with
    the contents the array had when the record was cloned or serialised.
\<close>

record ('t, 'n) Details =
  timestamp :: 't
  arguments :: "jsval list"
  namespaces :: 'n
  level :: VerbosityLevel
  contextId :: "string option"

record ('t, 'n) Stored = "('t, 'n) Details" +
  message :: string

type_synonym LogDetails = "(Date, addr) Details"
type_synonym StoredDetails = "(int, addr) Stored"
type_synonym DurableDetails = "(int, string list) Stored"
type_synonym arrays = "addr \<Rightarrow> string list"

definition snapshot :: "arrays \<Rightarrow> StoredDetails \<Rightarrow> DurableDetails" where
  "snapshot ns r =
     \<lparr>timestamp = timestamp r, arguments = arguments r, namespaces = ns (namespaces r),
      level = level r, contextId = contextId r, message = message r\<rparr>"

section \<open>The IndexedDB backend\<close>

datatype limit = Finite int | Infinity

record IndexedDBBackendOptions =
  expire :: "int option"
  flushTimer :: int
  minimumRecordsToCompress :: int
  maxNumberOfLogs :: "limit option"

text \<open>
  An entry of the object store \<^verbatim>\<open>logs\<close> is a plain record,
  \<^verbatim>\<open>{ timestamp, buffer }\<close>, or a bare \<^verbatim>\<open>ArrayBuffer\<close> (which
  \<^verbatim>\<open>flushToDatabase\<close> does not write, and \<^verbatim>\<open>export\<close> reads). The store is the list of its entries with their
  auto-incremented keys, in ascending key order. A read-write transaction that has
  been created and has neither completed nor been aborted yet is in \<open>inflight\<close>, with the batch
  its handlers captured and the entries it adds; transactions on the same store run
  one after the other in the order of their creation.
\<close>

datatype 'b entry = Plain DurableDetails | Blob int 'b | Raw 'b

record 'b txn =
  tdata :: "StoredDetails list"
  twrites :: "'b entry list"

record 'b database =
  logs :: "(nat \<times> 'b entry) list"
  keygen :: nat
  inflight :: "'b txn list"

record 'b IndexedDBBackend =
  toFlush :: "StoredDetails list"
  indexedDB :: "'b database option"
  options :: IndexedDBBackendOptions

text \<open>
  The functions of the platform that the backend calls and that this repository
  does not define: \<^verbatim>\<open>JSON.stringify\<close> and \<^verbatim>\<open>JSON.parse\<close> on a batch of records,
  \<^verbatim>\<open>TextEncoder\<close> and \<^verbatim>\<open>TextDecoder\<close>, the deflate \<^verbatim>\<open>CompressionStream\<close> and
  \<^verbatim>\<open>DecompressionStream\<close> (which fail on input that is not a deflate stream), and
  whether \<^verbatim>\<open>CompressionStream\<close> is defined at all. \<open>'j\<close> is the type of JSON texts and
  \<open>'b\<close> the type of binary buffers.
\<close>

record ('j, 'b) platform =
  hasCompressionStream :: bool
  stringify :: "DurableDetails list \<Rightarrow> 'j"
  parse :: "'j \<Rightarrow> DurableDetails list option"
  TextEncoder_encode :: "'j \<Rightarrow> 'b"
  TextDecoder_decode :: "'b \<Rightarrow> 'j"
  deflate :: "'b \<Rightarrow> 'b"
  inflate :: "'b \<Rightarrow> 'b option"

datatype outcome = Resolved | Rejected

definition defaultOptions :: IndexedDBBackendOptions where
  "defaultOptions =
     \<lparr>expire = Some (7 * 24 * 60 * 60 * 1000), flushTimer = 5000,
      minimumRecordsToCompress = 10, maxNumberOfLogs = Some (Finite 100000)\<rparr>"

text \<open>
  \<^verbatim>\<open>log\<close>: the arguments are encoded one after the other; an exception of
  \<^verbatim>\<open>encode\<close> leaves \<^verbatim>\<open>map\<close> and \<^verbatim>\<open>log\<close> before the push.
\<close>

definition IndexedDBBackend_log ::
  "objheap \<Rightarrow> string \<Rightarrow> LogDetails \<Rightarrow> 'b IndexedDBBackend \<Rightarrow> error + 'b IndexedDBBackend" where
  "IndexedDBBackend_log h msg details b =
     (case sequence_sum (map (encode h) (arguments details)) of
        Inl e \<Rightarrow> Inl e
      | Inr encoded \<Rightarrow>
          Inr (b\<lparr>toFlush := toFlush b @
                 [\<lparr>timestamp = getTime (timestamp details), arguments = encoded,
                   namespaces = namespaces details, level = level details,
                   contextId = contextId details, message = msg\<rparr>]\<rparr>))"

text \<open>
  \<open>addData\<close> is the closure of the same name in \<^verbatim>\<open>flushToDatabase\<close>, as the list of
  the entries it adds. The JSON text and the structured clone of \<^verbatim>\<open>add\<close> read the
  namespace arrays when the flush runs.
\<close>

definition addData ::
  "('j, 'b) platform \<Rightarrow> IndexedDBBackendOptions \<Rightarrow> arrays \<Rightarrow> int \<Rightarrow> StoredDetails list \<Rightarrow> 'b entry list"
  where
  "addData P opts ns now data =
     (if hasCompressionStream P \<and> int (length data) \<ge> minimumRecordsToCompress opts
      then [Blob now (deflate P (TextEncoder_encode P (stringify P (map (snapshot ns) data))))]
      else map (\<lambda>r. Plain (snapshot ns r)) data)"

text \<open>
  \<^verbatim>\<open>flushToDatabase\<close> up to the creation of the transaction. The result is
  \<open>Some Resolved\<close> when the promise is resolved without a transaction, and \<open>None\<close> when
  it is left to the handlers of the transaction now in flight.
\<close>

definition flushToDatabase ::
  "('j, 'b) platform \<Rightarrow> arrays \<Rightarrow> int \<Rightarrow> 'b IndexedDBBackend \<Rightarrow> 'b IndexedDBBackend \<times> outcome option"
  where
  "flushToDatabase P ns now b =
     (if length (toFlush b) = 0 then (b, Some Resolved)
      else case indexedDB b of
        None \<Rightarrow> (b, Some Resolved)
      | Some _ \<Rightarrow>
          (let data = toFlush b;
               b1 = b\<lparr>toFlush := []\<rparr>;
               entries = addData P (options b1) ns now data
           in case indexedDB b1 of
                None \<Rightarrow> (b1, Some Resolved)
              | Some db \<Rightarrow>
                  (b1\<lparr>indexedDB :=
                        Some (db\<lparr>inflight := inflight db @ [\<lparr>tdata = data, twrites = entries\<rparr>]\<rparr>)\<rparr>,
                   None)))"

definition flush ::
  "('j, 'b) platform \<Rightarrow> arrays \<Rightarrow> int \<Rightarrow> 'b IndexedDBBackend \<Rightarrow> 'b IndexedDBBackend \<times> outcome option"
  where
  "flush P ns now b = flushToDatabase P ns now b"

text \<open>
  The events that IndexedDB fires at the oldest transaction in flight.
  \<^item> \<open>TxComplete\<close>: the transaction has committed. The entries are in the store under
    fresh keys, and \<^verbatim>\<open>oncomplete\<close> resolves the promise.
  \<^item> \<open>TxError\<close>: one \<^verbatim>\<open>error\<close> event of a request has bubbled to the
    transaction. A request that fails fires one, the transaction is aborted because
    of it, and every request that is still pending then fires one of its own.
    \<^verbatim>\<open>onerror\<close> runs for each of them: it pushes the batch onto the pending queue
    and calls \<^verbatim>\<open>rej\<close>, which rejects the promise the first time and has no effect
    afterwards. The transaction is in flight until its \<^verbatim>\<open>abort\<close> event.
  \<^item> \<open>TxAbort\<close>: the \<^verbatim>\<open>abort\<close> event, which ends an aborted transaction; nothing
    of it is in the store. It follows the error events of the requests; where the
    transaction fails with no failed request (it cannot be committed, for instance
    when the quota is exceeded) it is the only event. The code registers no handler
    for it.
  These are the events of the Indexed Database API (its steps to fire an error
  event, to abort and to commit a transaction). The second component of the result
  is how the event settles the promise of the flush cycle, if it does.
\<close>

datatype txn_event = TxComplete | TxError | TxAbort

definition keyed :: "nat \<Rightarrow> 'a list \<Rightarrow> (nat \<times> 'a) list" where
  "keyed k xs = zip [k ..< k + length xs] xs"

definition transaction_event ::
  "txn_event \<Rightarrow> 'b IndexedDBBackend \<Rightarrow> 'b IndexedDBBackend \<times> outcome option" where
  "transaction_event r b =
     (case indexedDB b of
        None \<Rightarrow> (b, None)
      | Some db \<Rightarrow>
          (case inflight db of
             [] \<Rightarrow> (b, None)
           | t # ts \<Rightarrow>
               (case r of
                  TxError \<Rightarrow> (b\<lparr>toFlush := toFlush b @ tdata t\<rparr>, Some Rejected)
                | TxAbort \<Rightarrow> (b\<lparr>indexedDB := Some (db\<lparr>inflight := ts\<rparr>)\<rparr>, None)
                | TxComplete \<Rightarrow>
                    (b\<lparr>indexedDB :=
                         Some (db\<lparr>logs := logs db @ keyed (keygen db) (twrites t),
                                  keygen := keygen db + length (twrites t),
                                  inflight := ts\<rparr>)\<rparr>, Some Resolved))))"

subsection \<open>Eviction (clearOldData)\<close>









subsection \<open>Export\<close>

text \<open>
  \<^verbatim>\<open>decompress\<close>: the promise is rejected (\<open>None\<close>) when the buffer is not a deflate
  stream or the text is not JSON.
\<close>

definition decompress :: "('j, 'b) platform \<Rightarrow> 'b \<Rightarrow> DurableDetails list option" where
  "decompress P v =
     (case inflate P v of
        None \<Rightarrow> None
      | Some buffer \<Rightarrow> parse P (TextDecoder_decode P buffer))"

text \<open>
  \<^verbatim>\<open>cursor.continue()\<close> of the platform throws a \<^verbatim>\<open>TransactionInactiveError\<close>
  when the transaction of the cursor is not active. A transaction is active while
  a handler of one of its requests runs; when the handler has returned and no
  request is pending, the transaction commits.
\<close>

datatype transaction_state = Active | Inactive

definition cursor_continue :: "transaction_state \<Rightarrow> error + unit" where
  "cursor_continue s = (case s of Active \<Rightarrow> Inr () | Inactive \<Rightarrow> Inl TransactionInactiveError)"

text \<open>
  The cursor of \<^verbatim>\<open>export\<close>, with the records collected so far. At a plain record
  the success handler pushes it and continues the cursor itself, while the read
  transaction is active. At a compressed entry the handler starts the decompression
  and returns with no request pending; the callback of the decompression runs in a
  later task, when the transaction is no longer active, so its call of
  \<^verbatim>\<open>cursor.continue()\<close> throws. The exception is raised inside a promise callback
  and rejects a promise that nobody holds: neither \<^verbatim>\<open>res\<close> nor \<^verbatim>\<open>rej\<close> is
  called, there is no further success event, and the promise of \<^verbatim>\<open>export\<close> stays
  pending, which is the result \<open>None\<close>. It stays pending as well where a
  decompression is rejected. An error of the cursor itself is not modelled.
\<close>

fun export_cursor ::
  "('j, 'b) platform \<Rightarrow> (nat \<times> 'b entry) list \<Rightarrow> DurableDetails list \<Rightarrow> DurableDetails list option"
  where
  "export_cursor P [] data = Some data"
| "export_cursor P ((k, Blob t buffer) # rest) data =
     (case decompress P buffer of
        None \<Rightarrow> None
      | Some content \<Rightarrow>
          (case cursor_continue Inactive of
             Inl e \<Rightarrow> None
           | Inr u \<Rightarrow> export_cursor P rest (data @ content)))"
| "export_cursor P ((k, Raw buffer) # rest) data =
     (case decompress P buffer of
        None \<Rightarrow> None
      | Some content \<Rightarrow>
          (case cursor_continue Inactive of
             Inl e \<Rightarrow> None
           | Inr u \<Rightarrow> export_cursor P rest (data @ content)))"
| "export_cursor P ((k, Plain r) # rest) data =
     (case cursor_continue Active of
        Inl e \<Rightarrow> None
      | Inr u \<Rightarrow> export_cursor P rest (data @ [r]))"

definition export ::
  "('j, 'b) platform \<Rightarrow> 'b IndexedDBBackend \<Rightarrow> error + DurableDetails list option" where
  "export P b =
     (case indexedDB b of
        None \<Rightarrow> Inl NotInitialised
      | Some db \<Rightarrow> Inr (export_cursor P (logs db) []))"

subsection \<open>Batch export\<close>

text \<open>
  The state of one call of \<^verbatim>\<open>exportBatch\<close>: the variables of its closure
  (\<open>remainingPromises\<close> as the list of the batches the consumer was called with, in
  the order of the calls), the entries the cursor has not visited, the buffers whose
  decompression has been started and has not completed, and, for every call of
  \<^verbatim>\<open>Promise.all\<close>, how many consumer promises it was given. The promise of
  \<^verbatim>\<open>exportBatch\<close> resolves when the promises given to one of these calls have all
  resolved.
\<close>

record 'b batch_export =
  buffered :: "DurableDetails list"
  empty :: bool
  remainingPromises :: "DurableDetails list list"
  awaited :: "nat list"
  cursor :: "(nat \<times> 'b entry) list"
  decompressing :: "'b list"

definition sendBuffered :: "int \<Rightarrow> 'b batch_export \<Rightarrow> 'b batch_export" where
  "sendBuffered entriesAtOnce st =
     (let st1 = (if int (length (buffered st)) \<ge> entriesAtOnce \<or> empty st
                 then st\<lparr>remainingPromises := remainingPromises st @ [buffered st],
                         buffered := []\<rparr>
                 else st)
      in if empty st1 then st1\<lparr>awaited := awaited st1 @ [length (remainingPromises st1)]\<rparr>
         else st1)"

text \<open>
  The success handler of the cursor. A compressed entry starts a decompression and
  continues the cursor at once, without a call of \<^verbatim>\<open>sendBuffered\<close>. After the
  cursor has reported its end there is no further success event.
\<close>

definition cursor_success :: "int \<Rightarrow> 'b batch_export \<Rightarrow> 'b batch_export" where
  "cursor_success entriesAtOnce st =
     (if empty st then st
      else case cursor st of
        [] \<Rightarrow> sendBuffered entriesAtOnce (st\<lparr>empty := True\<rparr>)
      | (k, Blob t buffer) # rest \<Rightarrow>
          st\<lparr>decompressing := decompressing st @ [buffer], cursor := rest\<rparr>
      | (k, Raw buffer) # rest \<Rightarrow>
          st\<lparr>decompressing := decompressing st @ [buffer], cursor := rest\<rparr>
      | (k, Plain r) # rest \<Rightarrow>
          sendBuffered entriesAtOnce (st\<lparr>buffered := buffered st @ [r], cursor := rest\<rparr>))"

text \<open>The callback of the \<open>i\<close>-th decompression under way; a rejected one has none.\<close>

definition decompression_done ::
  "('j, 'b) platform \<Rightarrow> int \<Rightarrow> nat \<Rightarrow> 'b batch_export \<Rightarrow> 'b batch_export" where
  "decompression_done P entriesAtOnce i st =
     (if i < length (decompressing st) then
        (let st1 = st\<lparr>decompressing := take i (decompressing st) @ drop (Suc i) (decompressing st)\<rparr>
         in case decompress P (decompressing st ! i) of
              None \<Rightarrow> st1
            | Some content \<Rightarrow>
                sendBuffered entriesAtOnce (st1\<lparr>buffered := buffered st1 @ content\<rparr>))
      else st)"

datatype batch_event = CursorSuccess | DecompressionDone nat

fun batch_step ::
  "('j, 'b) platform \<Rightarrow> int \<Rightarrow> 'b batch_export \<Rightarrow> batch_event \<Rightarrow> 'b batch_export" where
  "batch_step P entriesAtOnce st CursorSuccess = cursor_success entriesAtOnce st"
| "batch_step P entriesAtOnce st (DecompressionDone i) = decompression_done P entriesAtOnce i st"

definition batch_init :: "(nat \<times> 'b entry) list \<Rightarrow> 'b batch_export" where
  "batch_init s =
     \<lparr>buffered = [], empty = False, remainingPromises = [], awaited = [],
      cursor = s, decompressing = []\<rparr>"

text \<open>
  \<^verbatim>\<open>exportBatch\<close> under a schedule: the order in which the success events of the
  cursor and the callbacks of the decompressions run.
\<close>

definition exportBatch ::
  "('j, 'b) platform \<Rightarrow> int \<Rightarrow> batch_event list \<Rightarrow> 'b IndexedDBBackend \<Rightarrow> error + 'b batch_export"
  where
  "exportBatch P entriesAtOnce schedule b =
     (case indexedDB b of
        None \<Rightarrow> Inl NotInitialised
      | Some db \<Rightarrow> Inr (foldl (batch_step P entriesAtOnce) (batch_init (logs db)) schedule))"

section \<open>The file backend\<close>

text \<open>
  The write stream is what the backend observes of it: the chunks passed to
  \<^verbatim>\<open>stream.write\<close>, in order, and the listeners registered with
  \<^verbatim>\<open>once("drain")\<close>, each with the messages it writes again. What
  \<^verbatim>\<open>stream.write\<close> returns is up to the sink: \<open>accepts n\<close> is the result of the
  write that follows \<open>n\<close> earlier ones.
\<close>

record WriteStream =
  chunks :: "string list"
  drainListeners :: "string list list"

record FileBackend =
  ready :: bool
  waiting :: "string list"
  stream :: "WriteStream option"

definition FileBackend_init :: FileBackend where
  "FileBackend_init = \<lparr>ready = False, waiting = [], stream = Some \<lparr>chunks = [], drainListeners = []\<rparr>\<rparr>"

definition FileBackend_write :: "(nat \<Rightarrow> bool) \<Rightarrow> string list \<Rightarrow> FileBackend \<Rightarrow> FileBackend" where
  "FileBackend_write accepts messages fb =
     (if length messages = 0 then fb
      else if \<not> ready fb then fb\<lparr>waiting := waiting fb @ messages\<rparr>
      else case stream fb of
        None \<Rightarrow> fb
      | Some st \<Rightarrow>
          (let lines = join [CHR 0x0D, CHR 0x0A] messages;
               successful = accepts (length (chunks st));
               st1 = st\<lparr>chunks := chunks st @ [lines]\<rparr>
           in if \<not> successful
              then fb\<lparr>stream := Some (st1\<lparr>drainListeners := drainListeners st1 @ [messages]\<rparr>)\<rparr>
              else fb\<lparr>stream := Some st1\<rparr>))"

definition FileBackend_log :: "(nat \<Rightarrow> bool) \<Rightarrow> string \<Rightarrow> FileBackend \<Rightarrow> FileBackend" where
  "FileBackend_log accepts msg fb = FileBackend_write accepts [msg] fb"

text \<open>The listener of \<^verbatim>\<open>ready\<close> that \<^verbatim>\<open>setup\<close> registers.\<close>

definition on_ready :: "(nat \<Rightarrow> bool) \<Rightarrow> FileBackend \<Rightarrow> FileBackend" where
  "on_ready accepts fb =
     (let fb1 = fb\<lparr>ready := True\<rparr>;
          fb2 = FileBackend_write accepts (waiting fb1) fb1
      in fb2\<lparr>waiting := []\<rparr>)"

text \<open>
  A \<^verbatim>\<open>drain\<close> event: the listeners registered so far are removed and run in the
  order of their registration; a listener registered meanwhile waits for the next
  event.
\<close>

definition on_drain :: "(nat \<Rightarrow> bool) \<Rightarrow> FileBackend \<Rightarrow> FileBackend" where
  "on_drain accepts fb =
     (case stream fb of
        None \<Rightarrow> fb
      | Some st \<Rightarrow>
          foldl (\<lambda>f messages. FileBackend_write accepts messages f)
            (fb\<lparr>stream := Some (st\<lparr>drainListeners := []\<rparr>)\<rparr>) (drainListeners st))"

datatype file_event = FLog string | FReady | FDrain

fun file_step :: "(nat \<Rightarrow> bool) \<Rightarrow> FileBackend \<Rightarrow> file_event \<Rightarrow> FileBackend" where
  "file_step accepts fb (FLog msg) = FileBackend_log accepts msg fb"
| "file_step accepts fb FReady = on_ready accepts fb"
| "file_step accepts fb FDrain = on_drain accepts fb"

section \<open>The facade (Lumberjack)\<close>

text \<open>
  Of the facade, the namespace stack: \<^verbatim>\<open>this.namespaces\<close> is one array, created by
  the constructor, that \<^verbatim>\<open>group\<close> pushes onto and \<^verbatim>\<open>groupEnd\<close> pops from, and
  that \<^verbatim>\<open>sendToBackend\<close> passes to the backend as it is. The heap of namespace
  arrays gives every array its current contents. The rendered text of the message
  (\<^verbatim>\<open>assembleMessage\<close>) is not modelled: \<open>sendToBackend\<close> takes it as \<open>text\<close>, and
  \<open>optionalParams\<close> as that call leaves them. The facade passes no context id.
  \<open>system_flush\<close> is a call of \<^verbatim>\<open>flush\<close> on the backend of the system, followed by
  an event of the oldest transaction in flight.
\<close>

record 'b system =
  heap :: arrays
  Lumberjack_namespaces :: addr
  backend :: "'b IndexedDBBackend"

definition group :: "string \<Rightarrow> 'b system \<Rightarrow> 'b system" where
  "group groupTitle w =
     w\<lparr>heap := (heap w)(Lumberjack_namespaces w := heap w (Lumberjack_namespaces w) @ [groupTitle])\<rparr>"

definition groupEnd :: "'b system \<Rightarrow> 'b system" where
  "groupEnd w =
     w\<lparr>heap := (heap w)(Lumberjack_namespaces w := butlast (heap w (Lumberjack_namespaces w)))\<rparr>"

definition sendToBackend ::
  "objheap \<Rightarrow> Date \<Rightarrow> string \<Rightarrow> VerbosityLevel \<Rightarrow> jsval \<Rightarrow> jsval list \<Rightarrow> 'b system \<Rightarrow> error + 'b system"
  where
  "sendToBackend h now text lvl msg optionalParams w =
     (case IndexedDBBackend_log h text
             \<lparr>timestamp = now, arguments = msg # optionalParams,
              namespaces = Lumberjack_namespaces w, level = lvl, contextId = None\<rparr>
             (backend w) of
        Inl e \<Rightarrow> Inl e
      | Inr b \<Rightarrow> Inr (w\<lparr>backend := b\<rparr>))"

definition system_flush ::
  "('j, 'b) platform \<Rightarrow> int \<Rightarrow> txn_event \<Rightarrow> 'b system \<Rightarrow> 'b system" where
  "system_flush P now r w =
     w\<lparr>backend := fst (transaction_event r (fst (flush P (heap w) now (backend w))))\<rparr>"

section \<open>Runs\<close>

text \<open>
  A sequence of \<^verbatim>\<open>log\<close> calls, each with the object graph of its arguments; a
  call that throws leaves the backend as it was.
\<close>

fun log_calls ::
  "(objheap \<times> string \<times> LogDetails) list \<Rightarrow> 'b IndexedDBBackend \<Rightarrow> 'b IndexedDBBackend" where
  "log_calls [] b = b"
| "log_calls ((h, msg, details) # cs) b =
     (case IndexedDBBackend_log h msg details b of
        Inl e \<Rightarrow> log_calls cs b
      | Inr b' \<Rightarrow> log_calls cs b')"

text \<open>
  A flush cycle whose transaction completes before anything else happens. A round
  is a number of \<^verbatim>\<open>log\<close> calls, the namespace arrays as they are when the flush
  that follows runs, and the time of that flush. \<open>flushed_records\<close> lists what rounds
  of completed flushes hand to their transactions, in order.
\<close>

type_synonym calls = "(objheap \<times> string \<times> LogDetails) list"
type_synonym round = "calls \<times> arrays \<times> int"

definition flush_completed ::
  "('j, 'b) platform \<Rightarrow> arrays \<Rightarrow> int \<Rightarrow> 'b IndexedDBBackend \<Rightarrow> 'b IndexedDBBackend" where
  "flush_completed P ns now b = fst (transaction_event TxComplete (fst (flush P ns now b)))"

fun successful_flushes :: "('j, 'b) platform \<Rightarrow> round list \<Rightarrow> 'b IndexedDBBackend \<Rightarrow> 'b IndexedDBBackend" where
  "successful_flushes P [] b = b"
| "successful_flushes P ((calls, ns, now) # rs) b =
     successful_flushes P rs (flush_completed P ns now (log_calls calls b))"

fun flushed_records :: "('j, 'b) platform \<Rightarrow> round list \<Rightarrow> 'b IndexedDBBackend \<Rightarrow> DurableDetails list" where
  "flushed_records P [] b = []"
| "flushed_records P ((calls, ns, now) # rs) b =
     map (snapshot ns) (toFlush (log_calls calls b))
     @ flushed_records P rs (flush_completed P ns now (log_calls calls b))"

text \<open>
  A transaction that fails with error events. \<open>error_events\<close> is a number of error
  events of the oldest transaction in flight, each after the \<^verbatim>\<open>log\<close> calls that
  were made before it. \<open>transaction_fails\<close> is the whole failure: the first error
  event, the further ones, and the abort event. A failed round is a round whose
  flush fails in this way.
\<close>

fun error_events :: "calls list \<Rightarrow> 'b IndexedDBBackend \<Rightarrow> 'b IndexedDBBackend" where
  "error_events [] b = b"
| "error_events (cs # css) b = error_events css (fst (transaction_event TxError (log_calls cs b)))"

definition transaction_fails :: "calls list \<Rightarrow> 'b IndexedDBBackend \<Rightarrow> 'b IndexedDBBackend" where
  "transaction_fails css b =
     fst (transaction_event TxAbort (error_events css (fst (transaction_event TxError b))))"

type_synonym failed_round = "calls \<times> arrays \<times> int \<times> calls list"

fun failed_flushes ::
  "('j, 'b) platform \<Rightarrow> failed_round list \<Rightarrow> 'b IndexedDBBackend \<Rightarrow> 'b IndexedDBBackend" where
  "failed_flushes P [] b = b"
| "failed_flushes P ((calls, ns, now, css) # rs) b =
     failed_flushes P rs (transaction_fails css (fst (flush P ns now (log_calls calls b))))"

section \<open>Notions of the statements\<close>

text \<open>
  The codec is lossless on a batch when the batch comes back from its JSON text,
  that text from its UTF-8 bytes, and the bytes from their deflate stream.
\<close>

definition lossless_on :: "('j, 'b) platform \<Rightarrow> DurableDetails list \<Rightarrow> bool" where
  "lossless_on P D \<longleftrightarrow>
     parse P (stringify P D) = Some D
   \<and> TextDecoder_decode P (TextEncoder_encode P (stringify P D)) = stringify P D
   \<and> inflate P (deflate P (TextEncoder_encode P (stringify P D)))
       = Some (TextEncoder_encode P (stringify P D))"



text \<open>
  The batches that \<^verbatim>\<open>exportBatch\<close> hands over when every entry is a plain record:
  full ones while enough records are left, then the rest, which may be empty; and
  the number of batches of the claim.
\<close>

function batches :: "nat \<Rightarrow> 'a list \<Rightarrow> 'a list list" where
  "batches k xs = (if k = 0 \<or> length xs < k then [xs] else take k xs # batches k (drop k xs))"
  by pat_completeness auto

termination batches
  by (relation "measure (\<lambda>(k, xs). length xs)") auto

declare batches.simps [simp del]

definition ceil_div :: "nat \<Rightarrow> nat \<Rightarrow> nat" where
  "ceil_div m k = (m + k - 1) div k"

text \<open>
  What is observed of a call of \<^verbatim>\<open>exportBatch\<close>: the consumer calls, and the
  numbers of consumer promises the calls of \<^verbatim>\<open>Promise.all\<close> were given. The
  records of an entry; a state in which the cursor has ended and no decompression
  is under way; the records that a state holds or has handed over.
\<close>

definition consumer_calls :: "error + 'b batch_export \<Rightarrow> DurableDetails list list" where
  "consumer_calls r = (case r of Inl e \<Rightarrow> [] | Inr st \<Rightarrow> remainingPromises st)"

definition promise_waits_for :: "error + 'b batch_export \<Rightarrow> nat list" where
  "promise_waits_for r = (case r of Inl e \<Rightarrow> [] | Inr st \<Rightarrow> awaited st)"

definition entry_records :: "('j, 'b) platform \<Rightarrow> 'b entry \<Rightarrow> DurableDetails list" where
  "entry_records P e =
     (case e of
        Plain r \<Rightarrow> [r]
      | Blob t buffer \<Rightarrow> (case decompress P buffer of None \<Rightarrow> [] | Some content \<Rightarrow> content)
      | Raw buffer \<Rightarrow> (case decompress P buffer of None \<Rightarrow> [] | Some content \<Rightarrow> content))"

definition complete :: "'b batch_export \<Rightarrow> bool" where
  "complete st \<longleftrightarrow> empty st \<and> cursor st = [] \<and> decompressing st = []"

definition outstanding :: "('j, 'b) platform \<Rightarrow> 'b batch_export \<Rightarrow> DurableDetails multiset" where
  "outstanding P st =
     mset (concat (remainingPromises st)) + mset (buffered st)
     + mset (concat (map (\<lambda>buffer. case decompress P buffer of None \<Rightarrow> [] | Some c \<Rightarrow> c)
                      (decompressing st)))
     + mset (concat (map (\<lambda>x. entry_records P (snd x)) (cursor st)))"

text \<open>
  Arguments that \<^verbatim>\<open>encode\<close> turns into a string without entering its
  constructor-name branch; an object that has itself as the value of a property;
  and what the encoding of an item is, case by case, outside that branch.
\<close>

definition encodes_plainly :: "objheap \<Rightarrow> jsval \<Rightarrow> bool" where
  "encodes_plainly h item =
     (if \<not> truthy item \<or> typeof_js item \<noteq> ''object'' then True
      else case JSON_stringify h [] item of
        Inr (Some text) \<Rightarrow> text \<noteq> ''{}'' \<or> Object_keys h item = []
      | _ \<Rightarrow> False)"

definition has_itself_as_property :: "objheap \<Rightarrow> jsval \<Rightarrow> bool" where
  "has_itself_as_property h item =
     (case item of
        JRef a \<Rightarrow> (case map_of h a of None \<Rightarrow> False | Some ob \<Rightarrow> JRef a \<in> set (map snd (ownProps ob)))
      | _ \<Rightarrow> False)"

definition encoded_as :: "objheap \<Rightarrow> jsval \<Rightarrow> jsval \<Rightarrow> bool" where
  "encoded_as h item enc =
     (if \<not> truthy item then enc = JStr []
      else if typeof_js item \<noteq> ''object'' then
        (case toString_js item of Some s \<Rightarrow> enc = JStr s | None \<Rightarrow> False)
      else case JSON_stringify h [] item of
        Inr (Some text) \<Rightarrow> (text \<noteq> ''{}'' \<or> Object_keys h item = [] \<longrightarrow> enc = JStr text)
      | _ \<Rightarrow> False)"

text \<open>
  A file backend after the ready signal; the writes that the sink refused,
  numbered from \<open>n\<close>; what the ready signal writes, and all writes of a run of \<^verbatim>\<open>log\<close>
  calls before and after the ready signal.
\<close>

definition ready_backend :: "string list \<Rightarrow> string list list \<Rightarrow> FileBackend" where
  "ready_backend cs ls = \<lparr>ready = True, waiting = [], stream = Some \<lparr>chunks = cs, drainListeners = ls\<rparr>\<rparr>"

definition refused :: "(nat \<Rightarrow> bool) \<Rightarrow> nat \<Rightarrow> string list list \<Rightarrow> string list list" where
  "refused accepts n writes =
     map snd (filter (\<lambda>(i, messages). \<not> accepts i) (zip [n ..< n + length writes] writes))"

definition first_write :: "string list \<Rightarrow> string list list" where
  "first_write pre = filter (\<lambda>messages. messages \<noteq> []) [pre]"

definition all_writes :: "string list \<Rightarrow> string list \<Rightarrow> string list list" where
  "all_writes pre post = first_write pre @ map (\<lambda>m. [m]) post"

section \<open>Example states\<close>

text \<open>
  A platform whose JSON texts and buffers are the batches themselves, which makes
  its codec lossless.
\<close>

definition identity_platform :: "(DurableDetails list, DurableDetails list) platform" where
  "identity_platform =
     \<lparr>hasCompressionStream = True, stringify = id, parse = Some, TextEncoder_encode = id,
      TextDecoder_decode = id, deflate = id, inflate = Some\<rparr>"

text \<open>
  Pending records; a backend with a transaction in flight, one that was never
  opened, an idle one with two pending records that compresses from two records
  on, one with the same records and the options of the constructor, and stores of
  plain and of compressed entries.
\<close>

definition r1 :: StoredDetails where
  "r1 =
     \<lparr>timestamp = 5, arguments = [JStr ''x''], namespaces = 0, level = NOTICE,
      contextId = None, message = ''x''\<rparr>"

definition r2 :: StoredDetails where
  "r2 =
     \<lparr>timestamp = 7, arguments = [], namespaces = 0, level = ERROR, contextId = None,
      message = ''y''\<rparr>"

definition pending_txn :: "DurableDetails list txn" where
  "pending_txn =
     \<lparr>tdata = [r1, r2], twrites = map (\<lambda>r. Plain (snapshot (\<lambda>a. []) r)) [r1, r2]\<rparr>"

definition busy_database :: "DurableDetails list database" where
  "busy_database = \<lparr>logs = [], keygen = 1, inflight = [pending_txn]\<rparr>"

definition busy_backend :: "DurableDetails list IndexedDBBackend" where
  "busy_backend = \<lparr>toFlush = [], indexedDB = Some busy_database, options = defaultOptions\<rparr>"

definition closed_backend :: "DurableDetails list IndexedDBBackend" where
  "closed_backend = \<lparr>toFlush = [r1], indexedDB = None, options = defaultOptions\<rparr>"

definition eager_options :: IndexedDBBackendOptions where
  "eager_options = defaultOptions\<lparr>minimumRecordsToCompress := 2\<rparr>"

definition idle_database :: "DurableDetails list database" where
  "idle_database = \<lparr>logs = [], keygen = 1, inflight = []\<rparr>"

definition idle_backend :: "DurableDetails list IndexedDBBackend" where
  "idle_backend = \<lparr>toFlush = [r1, r2], indexedDB = Some idle_database, options = eager_options\<rparr>"

definition pending_backend :: "DurableDetails list IndexedDBBackend" where
  "pending_backend = \<lparr>toFlush = [r1, r2], indexedDB = Some idle_database, options = defaultOptions\<rparr>"

definition plain_at :: "int \<Rightarrow> DurableDetails" where
  "plain_at t =
     \<lparr>timestamp = t, arguments = [], namespaces = [], level = INFO, contextId = None,
      message = ''entry''\<rparr>"

definition aged_database :: "DurableDetails list database" where
  "aged_database =
     \<lparr>logs = [(1, Plain (plain_at 10)), (2, Plain (plain_at 20)), (3, Plain (plain_at 30)),
              (4, Plain (plain_at 40)), (5, Plain (plain_at 50))],
      keygen = 6, inflight = []\<rparr>"

definition aged_backend :: "DurableDetails list IndexedDBBackend" where
  "aged_backend =
     \<lparr>toFlush = [], indexedDB = Some aged_database,
      options = defaultOptions\<lparr>expire := Some 35, maxNumberOfLogs := Some (Finite 2)\<rparr>\<rparr>"

definition two_plain_backend :: "DurableDetails list IndexedDBBackend" where
  "two_plain_backend =
     \<lparr>toFlush = [],
      indexedDB = Some \<lparr>logs = [(1, Plain (plain_at 10)), (2, Plain (plain_at 20))],
                        keygen = 3, inflight = []\<rparr>,
      options = defaultOptions\<rparr>"

definition packed_backend :: "DurableDetails list IndexedDBBackend" where
  "packed_backend =
     \<lparr>toFlush = [],
      indexedDB = Some \<lparr>logs = [(1, Blob 100 [plain_at 10, plain_at 20])],
                        keygen = 2, inflight = []\<rparr>,
      options = defaultOptions\<rparr>"

text \<open>A schedule of cursor events.\<close>

definition six_successes :: "batch_event list" where
  "six_successes =
     [CursorSuccess, CursorSuccess, CursorSuccess, CursorSuccess, CursorSuccess, CursorSuccess]"

text \<open>
  Object graphs: an object that refers to itself, a plain object, and an instance
  of a class whose only own property is a function. Log calls and the records they
  queue.
\<close>

definition circular_heap :: objheap where
  "circular_heap =
     [(0, \<lparr>isArray = False, ownProps = [(''self'', JRef 0)],
           constructorProp = JFunction ''Object'' ''function Object() { [native code] }''\<rparr>)]"

definition plain_heap :: objheap where
  "plain_heap =
     [(0, \<lparr>isArray = False, ownProps = [(''a'', JNum (safe 1))],
           constructorProp = JFunction ''Object'' ''function Object() { [native code] }''\<rparr>)]"

definition widget_heap :: objheap where
  "widget_heap =
     [(0, \<lparr>isArray = False, ownProps = [(''onClick'', JFunction ''onClick'' ''() => {}'')],
           constructorProp = JFunction ''Widget'' ''class Widget { }''\<rparr>)]"

definition details_of :: "jsval list \<Rightarrow> LogDetails" where
  "details_of args =
     \<lparr>timestamp = Date 5, arguments = args, namespaces = 0, level = NOTICE, contextId = None\<rparr>"

definition stored_of :: "jsval list \<Rightarrow> StoredDetails" where
  "stored_of encoded =
     \<lparr>timestamp = 5, arguments = encoded, namespaces = 0, level = NOTICE, contextId = None,
      message = ''m''\<rparr>"

text \<open>
  A facade over an initialised backend: a log call inside a group, then the end of
  the group, then a flush that completes.
\<close>

definition fresh_system :: "DurableDetails list system" where
  "fresh_system =
     \<lparr>heap = (\<lambda>a. []), Lumberjack_namespaces = 0,
      backend = \<lparr>toFlush = [], indexedDB = Some idle_database, options = defaultOptions\<rparr>\<rparr>"

definition logged_in_group :: "error + DurableDetails list system" where
  "logged_in_group =
     sendToBackend [] (Date 5) ''x'' NOTICE (JStr ''x'') [] (group ''a'' fresh_system)"

definition flushed_after_group :: "DurableDetails list system" where
  "flushed_after_group =
     (case logged_in_group of
        Inl e \<Rightarrow> fresh_system
      | Inr w \<Rightarrow> system_flush identity_platform 100 TxComplete (groupEnd w))"

section \<open>Properties of the flush cycle\<close>

lemma log_frame:
  assumes "IndexedDBBackend_log h msg d b = Inr b'"
  shows "\<exists>r. toFlush b' = toFlush b @ [r]" and "indexedDB b' = indexedDB b" and "options b' = options b"
  using assms by (auto simp: IndexedDBBackend_log_def split: sum.splits)

lemma log_calls_toFlush: "\<exists>more. toFlush (log_calls cs b) = toFlush b @ more"
proof (induction cs arbitrary: b)
  case Nil
  show ?case by simp
next
  case (Cons c cs)
  obtain h msg d where c: "c = (h, msg, d)" by (cases c)
  show ?case
  proof (cases "IndexedDBBackend_log h msg d b")
    case (Inl e)
    then show ?thesis using Cons.IH [of b] by (simp add: c)
  next
    case (Inr b')
    from log_frame(1) [OF Inr] obtain r where r: "toFlush b' = toFlush b @ [r]" ..
    from Cons.IH [of b'] obtain more where "toFlush (log_calls cs b') = toFlush b' @ more" ..
    then have "toFlush (log_calls (c # cs) b) = toFlush b @ (r # more)"
      by (simp add: c Inr r)
    then show ?thesis ..
  qed
qed

lemma log_calls_frame:
  "indexedDB (log_calls cs b) = indexedDB b \<and> options (log_calls cs b) = options b"
proof (induction cs arbitrary: b)
  case Nil
  show ?case by simp
next
  case (Cons c cs)
  obtain h msg d where c: "c = (h, msg, d)" by (cases c)
  show ?case
  proof (cases "IndexedDBBackend_log h msg d b")
    case (Inl e)
    then show ?thesis using Cons.IH [of b] by (simp add: c)
  next
    case (Inr b')
    then show ?thesis using Cons.IH [of b'] log_frame(2,3) [OF Inr] by (simp add: c)
  qed
qed

text \<open>
  C10: when the pending queue is empty or the database has not been opened,
  \<^verbatim>\<open>flushToDatabase\<close>, and so \<^verbatim>\<open>flush\<close>, resolves at once; no transaction is
  created, nothing is written, and the backend, its pending queue included, is
  unchanged. On a backend that is not initialised the caller observes success
  although the queued records were not persisted.
\<close>

theorem flush_without_work_resolves:
  assumes "toFlush b = [] \<or> indexedDB b = None"
  shows "flushToDatabase P ns now b = (b, Some Resolved) \<and> flush P ns now b = (b, Some Resolved)"
  using assms by (auto simp: flushToDatabase_def flush_def)

theorem flush_without_work_resolves_witness:
  "(toFlush closed_backend = [] \<or> indexedDB closed_backend = None)
   \<and> flushToDatabase identity_platform (\<lambda>a. []) 100 closed_backend = (closed_backend, Some Resolved)
   \<and> flush identity_platform (\<lambda>a. []) 100 closed_backend = (closed_backend, Some Resolved)"
  using flush_without_work_resolves [of closed_backend identity_platform "\<lambda>a. []" 100]
  by (simp add: closed_backend_def)

lemma error_event_frame:
  assumes "indexedDB b = Some db" and "inflight db = t # ts"
  shows "transaction_event TxError b = (b\<lparr>toFlush := toFlush b @ tdata t\<rparr>, Some Rejected)"
  using assms by (simp add: transaction_event_def)

lemma error_event_idle:
  assumes "indexedDB b = Some db" and "inflight db = []"
  shows "transaction_event r b = (b, None)"
  using assms by (simp add: transaction_event_def)

lemma error_events_frame:
  assumes "indexedDB b = Some db"
  shows "(\<exists>more. toFlush (error_events css b) = toFlush b @ more)
       \<and> indexedDB (error_events css b) = Some db
       \<and> options (error_events css b) = options b"
  using assms
proof (induction css arbitrary: b)
  case Nil
  then show ?case by simp
next
  case (Cons cs css)
  define b1 where "b1 = log_calls cs b"
  have d1: "indexedDB b1 = Some db" and o1: "options b1 = options b"
    using Cons.prems by (simp_all add: b1_def log_calls_frame)
  obtain m1 where q1: "toFlush b1 = toFlush b @ m1"
    unfolding b1_def using log_calls_toFlush by blast
  define b2 where "b2 = fst (transaction_event TxError b1)"
  have d2: "indexedDB b2 = Some db" and o2: "options b2 = options b1"
    and q2: "\<exists>m. toFlush b2 = toFlush b1 @ m"
    using d1 by (auto simp: b2_def transaction_event_def split: list.splits)
  from q2 obtain m2 where q2': "toFlush b2 = toFlush b1 @ m2" ..
  from Cons.IH [OF d2] obtain m3 where q3: "toFlush (error_events css b2) = toFlush b2 @ m3"
    and d3: "indexedDB (error_events css b2) = Some db"
    and o3: "options (error_events css b2) = options b2"
    by blast
  have "toFlush (error_events (cs # css) b) = toFlush b @ (m1 @ m2 @ m3)"
    by (simp add: b1_def [symmetric] b2_def [symmetric] q3 q2' q1)
  then show ?case
    using d3 o3 o2 o1 by (simp add: b1_def [symmetric] b2_def [symmetric])
qed

lemma transaction_fails_frame:
  assumes "indexedDB b = Some db" and "inflight db = [t]"
  shows "(\<exists>more. toFlush (transaction_fails css b) = toFlush b @ tdata t @ more)
       \<and> indexedDB (transaction_fails css b) = Some (db\<lparr>inflight := []\<rparr>)
       \<and> options (transaction_fails css b) = options b"
proof -
  define b1 where "b1 = b\<lparr>toFlush := toFlush b @ tdata t\<rparr>"
  have e: "transaction_event TxError b = (b1, Some Rejected)"
    unfolding b1_def by (rule error_event_frame [OF assms])
  have d1: "indexedDB b1 = Some db" using assms(1) by (simp add: b1_def)
  from error_events_frame [OF d1, of css] obtain more
    where q: "toFlush (error_events css b1) = toFlush b1 @ more"
      and d: "indexedDB (error_events css b1) = Some db"
      and opt: "options (error_events css b1) = options b1"
    by blast
  have a: "transaction_event TxAbort (error_events css b1)
      = ((error_events css b1)\<lparr>indexedDB := Some (db\<lparr>inflight := []\<rparr>)\<rparr>, None)"
    using d assms(2) by (simp add: transaction_event_def)
  show ?thesis
    using q opt by (simp add: transaction_fails_def e a) (simp add: b1_def)
qed

lemma transaction_fails_idle:
  assumes "indexedDB b = Some db" and "inflight db = []"
  shows "(\<exists>more. toFlush (transaction_fails css b) = toFlush b @ more)
       \<and> indexedDB (transaction_fails css b) = Some db
       \<and> options (transaction_fails css b) = options b"
proof -
  have e: "transaction_event TxError b = (b, None)" by (rule error_event_idle [OF assms])
  from error_events_frame [OF assms(1), of css] obtain more
    where q: "toFlush (error_events css b) = toFlush b @ more"
      and d: "indexedDB (error_events css b) = Some db"
      and opt: "options (error_events css b) = options b"
    by blast
  have a: "transaction_event TxAbort (error_events css b) = (error_events css b, None)"
    by (rule error_event_idle [OF d assms(2)])
  show ?thesis
    using q d opt by (simp add: transaction_fails_def e a)
qed

lemma failed_flush_frame:
  assumes "indexedDB b = Some db" and "inflight db = []"
  shows "(\<exists>more. toFlush (transaction_fails css (fst (flush P ns now b))) = toFlush b @ more)
       \<and> indexedDB (transaction_fails css (fst (flush P ns now b))) = Some db
       \<and> options (transaction_fails css (fst (flush P ns now b))) = options b"
proof (cases "toFlush b = []")
  case True
  then have "fst (flush P ns now b) = b" by (simp add: flush_def flushToDatabase_def)
  then show ?thesis using transaction_fails_idle [OF assms, of css] by simp
next
  case False
  define t where "t = \<lparr>tdata = toFlush b, twrites = addData P (options b) ns now (toFlush b)\<rparr>"
  define b1 where "b1 = b\<lparr>toFlush := [], indexedDB := Some (db\<lparr>inflight := [t]\<rparr>)\<rparr>"
  have f: "fst (flush P ns now b) = b1"
    using False assms by (simp add: flush_def flushToDatabase_def Let_def b1_def t_def)
  have d1: "indexedDB b1 = Some (db\<lparr>inflight := [t]\<rparr>)" by (simp add: b1_def)
  have i1: "inflight (db\<lparr>inflight := [t]\<rparr>) = [t]" by simp
  have same: "db\<lparr>inflight := []\<rparr> = db" using assms(2) by simp
  from transaction_fails_frame [OF d1 i1, of css]
  show ?thesis by (simp add: f same) (simp add: b1_def t_def)
qed

lemma failed_flushes_frame:
  assumes "indexedDB b = Some db" and "inflight db = []"
  shows "(\<exists>more. toFlush (failed_flushes P rs b) = toFlush b @ more)
       \<and> indexedDB (failed_flushes P rs b) = Some db
       \<and> options (failed_flushes P rs b) = options b"
  using assms(1)
proof (induction rs arbitrary: b)
  case Nil
  then show ?case by simp
next
  case (Cons r rs)
  obtain calls ns now css where r: "r = (calls, ns, now, css)" by (cases r)
  define b1 where "b1 = log_calls calls b"
  have d1: "indexedDB b1 = Some db" and o1: "options b1 = options b"
    using Cons.prems by (simp_all add: b1_def log_calls_frame)
  obtain m1 where q1: "toFlush b1 = toFlush b @ m1"
    unfolding b1_def using log_calls_toFlush by blast
  define b2 where "b2 = transaction_fails css (fst (flush P ns now b1))"
  from failed_flush_frame [OF d1 assms(2), of css P ns now] obtain m2
    where q2: "toFlush b2 = toFlush b1 @ m2" and d2: "indexedDB b2 = Some db"
      and o2: "options b2 = options b1"
    unfolding b2_def by blast
  from Cons.IH [OF d2] obtain m3 where q3: "toFlush (failed_flushes P rs b2) = toFlush b2 @ m3"
    and d3: "indexedDB (failed_flushes P rs b2) = Some db"
    and o3: "options (failed_flushes P rs b2) = options b2"
    by blast
  have "toFlush (failed_flushes P (r # rs) b) = toFlush b @ (m1 @ m2 @ m3)"
    by (simp add: r b1_def [symmetric] b2_def [symmetric] q3 q2 q1)
  then show ?case
    using d3 o3 o2 o1 by (simp add: r b1_def [symmetric] b2_def [symmetric])
qed


text \<open>
  A transaction that fails with error events. Every error event pushes the batch
  of the transaction onto the pending queue again, behind what was logged meanwhile,
  and the first one rejects the promise of the flush cycle. When the transaction has
  ended, with nothing written, and no other one is in flight: after any number of
  further flush cycles that fail in this way and any \<^verbatim>\<open>log\<close> calls, the pending
  queue starts with what it held and the batch; the next flush cycle swaps all of it
  out, and when its transaction completes, the store has gained the plain entry of
  every record of that batch, in order, or the one compressed entry whose buffer is
  the deflated JSON text of that batch. In the example the batch \<open>[r1, r2]\<close> fails
  with two error events and is written twice.
\<close>

lemma failed_transaction_requeues_batch:
  assumes db: "indexedDB b = Some db" and fl: "inflight db = [t]" and ne: "tdata t \<noteq> []"
  shows "let (b1, o1) = transaction_event TxError b;
             b2 = fst (transaction_event TxAbort (error_events css b1));
             b3 = log_calls calls (failed_flushes P rounds b2);
             batch = toFlush b3;
             entries =
               (if hasCompressionStream P \<and> int (length batch) \<ge> minimumRecordsToCompress (options b)
                then [Blob now (deflate P (TextEncoder_encode P (stringify P (map (snapshot ns) batch))))]
                else map (\<lambda>r. Plain (snapshot ns r)) batch);
             (b4, o4) = flush P ns now b3;
             (b5, o5) = transaction_event TxComplete b4
         in o1 = Some Rejected
          \<and> toFlush b1 = toFlush b @ tdata t
          \<and> take (length (toFlush b @ tdata t)) (toFlush b2) = toFlush b @ tdata t
          \<and> indexedDB b2 = Some (db\<lparr>inflight := []\<rparr>)
          \<and> take (length (toFlush b @ tdata t)) batch = toFlush b @ tdata t
          \<and> o4 = None
          \<and> o5 = Some Resolved
          \<and> toFlush b5 = []
          \<and> indexedDB b5 = Some (db\<lparr>logs := logs db @ keyed (keygen db) entries,
                                      keygen := keygen db + length entries, inflight := []\<rparr>)"
proof -
  define b1 where "b1 = b\<lparr>toFlush := toFlush b @ tdata t\<rparr>"
  have s1: "transaction_event TxError b = (b1, Some Rejected)"
    unfolding b1_def by (rule error_event_frame [OF db fl])
  have q1: "toFlush b1 = toFlush b @ tdata t" by (simp add: b1_def)
  define b2 where "b2 = fst (transaction_event TxAbort (error_events css b1))"
  have b2: "b2 = transaction_fails css b" by (simp add: b2_def transaction_fails_def s1)
  from transaction_fails_frame [OF db fl, of css] obtain m2
    where q2: "toFlush b2 = toFlush b @ tdata t @ m2"
      and d2: "indexedDB b2 = Some (db\<lparr>inflight := []\<rparr>)" and o2: "options b2 = options b"
    unfolding b2 by blast
  have i2: "inflight (db\<lparr>inflight := []\<rparr>) = []" by simp
  define b3 where "b3 = log_calls calls (failed_flushes P rounds b2)"
  from failed_flushes_frame [OF d2 i2, of P rounds] obtain m3
    where qf: "toFlush (failed_flushes P rounds b2) = toFlush b2 @ m3"
      and df: "indexedDB (failed_flushes P rounds b2) = Some (db\<lparr>inflight := []\<rparr>)"
      and opf: "options (failed_flushes P rounds b2) = options b2"
    by blast
  obtain m4 where q3: "toFlush b3 = toFlush (failed_flushes P rounds b2) @ m4"
    unfolding b3_def using log_calls_toFlush by blast
  have d3: "indexedDB b3 = Some (db\<lparr>inflight := []\<rparr>)" and o3: "options b3 = options b"
    unfolding b3_def by (simp_all add: log_calls_frame df opf o2)
  have batch: "toFlush b3 = (toFlush b @ tdata t) @ (m2 @ m3 @ m4)" by (simp add: q3 qf q2)
  have ne3: "toFlush b3 \<noteq> []" using batch ne by simp
  define entries where "entries =
      (if hasCompressionStream P \<and> int (length (toFlush b3)) \<ge> minimumRecordsToCompress (options b)
       then [Blob now (deflate P (TextEncoder_encode P (stringify P (map (snapshot ns) (toFlush b3)))))]
       else map (\<lambda>r. Plain (snapshot ns r)) (toFlush b3))"
  have ad: "addData P (options b) ns now (toFlush b3) = entries"
    by (simp add: addData_def entries_def)
  define b4 where "b4 = b3\<lparr>toFlush := [],
      indexedDB := Some (db\<lparr>inflight := [\<lparr>tdata = toFlush b3, twrites = entries\<rparr>]\<rparr>)\<rparr>"
  have f: "flush P ns now b3 = (b4, None)"
    using ne3 by (simp add: flush_def flushToDatabase_def d3 o3 Let_def b4_def ad)
  have fin: "transaction_event TxComplete b4 =
      (b4\<lparr>indexedDB := Some (db\<lparr>logs := logs db @ keyed (keygen db) entries,
                                  keygen := keygen db + length entries, inflight := []\<rparr>)\<rparr>,
       Some Resolved)"
    by (simp add: transaction_event_def b4_def)
  have t2: "take (length (toFlush b @ tdata t)) (toFlush b2) = toFlush b @ tdata t"
    by (simp add: q2)
  have t3: "take (length (toFlush b @ tdata t)) (toFlush b3) = toFlush b @ tdata t"
    unfolding batch by simp
  have b5: "toFlush (b4\<lparr>indexedDB := Some (db\<lparr>logs := logs db @ keyed (keygen db) entries,
                                  keygen := keygen db + length entries, inflight := []\<rparr>)\<rparr>) = []"
    by (simp add: b4_def)
  show ?thesis
    unfolding s1 Let_def case_prod_conv b2_def [symmetric] b3_def [symmetric] entries_def [symmetric]
      f fin
    using q1 t2 d2 t3 b5 by simp
qed

lemma failed_transaction_requeues_batch_example:
  "(let (b1, o1) = transaction_event TxError busy_backend;
        b2 = fst (transaction_event TxAbort (error_events [[]] b1));
        (b4, o4) = flush identity_platform (\<lambda>a. []) 200 b2;
        (b5, o5) = transaction_event TxComplete b4
    in o1 = Some Rejected \<and> toFlush b1 = [r1, r2] \<and> toFlush b2 = [r1, r2, r1, r2]
     \<and> o4 = None \<and> o5 = Some Resolved
     \<and> indexedDB b5
         = Some \<lparr>logs = keyed 1 (map (\<lambda>r. Plain (snapshot (\<lambda>a. []) r)) [r1, r2, r1, r2]),
                 keygen = 5, inflight = []\<rparr>)"
proof -
  define b1 where "b1 = busy_backend\<lparr>toFlush := [r1, r2]\<rparr>"
  define b2 where "b2 = busy_backend\<lparr>toFlush := [r1, r2, r1, r2],
                         indexedDB := Some (busy_database\<lparr>inflight := []\<rparr>)\<rparr>"
  have e1: "transaction_event TxError busy_backend = (b1, Some Rejected)"
    by (simp add: b1_def busy_backend_def busy_database_def pending_txn_def transaction_event_def)
  have e2: "error_events [[]] b1 = b1\<lparr>toFlush := [r1, r2, r1, r2]\<rparr>"
    by (simp add: b1_def busy_backend_def busy_database_def pending_txn_def transaction_event_def)
  have e3: "transaction_event TxAbort (b1\<lparr>toFlush := [r1, r2, r1, r2]\<rparr>) = (b2, None)"
    by (simp add: b1_def b2_def busy_backend_def busy_database_def transaction_event_def)
  define t where "t = \<lparr>tdata = [r1, r2, r1, r2],
      twrites = map (\<lambda>r. Plain (snapshot (\<lambda>a. []) r)) [r1, r2, r1, r2] :: DurableDetails list entry list\<rparr>"
  define b4 where "b4 = b2\<lparr>toFlush := [], indexedDB := Some (busy_database\<lparr>inflight := [t]\<rparr>)\<rparr>"
  have e4: "flush identity_platform (\<lambda>a. []) 200 b2 = (b4, None)"
    by (simp add: b4_def b2_def t_def busy_backend_def flush_def flushToDatabase_def addData_def
        defaultOptions_def Let_def)
  have e5: "transaction_event TxComplete b4
      = (b4\<lparr>indexedDB := Some \<lparr>logs = keyed 1 (twrites t), keygen = 5, inflight = []\<rparr>\<rparr>, Some Resolved)"
    by (simp add: b4_def transaction_event_def busy_database_def t_def)
  show ?thesis
    unfolding e1 Let_def case_prod_conv e2 e3 fst_conv e4 e5
    by (simp add: b1_def b2_def t_def)
qed

text \<open>
  C1 does not hold of the code. \<^verbatim>\<open>flushToDatabase\<close> gives the transaction the
  handlers \<^verbatim>\<open>onerror\<close> and \<^verbatim>\<open>oncomplete\<close> and none for \<^verbatim>\<open>abort\<close>. A
  transaction that cannot be committed (the quota is exceeded, the disk fails) is
  aborted with no request that failed: it fires \<^verbatim>\<open>abort\<close> and no \<^verbatim>\<open>error\<close> event.
  In the run below the batch \<open>[r1, r2]\<close> is swapped out of the pending queue and
  its transaction is aborted in this way. Nothing is written, the pending queue is
  empty, and the promise of the flush is never settled. The next flush finds nothing
  to write, and the one after a further \<^verbatim>\<open>log\<close> call writes the record of that
  call only: the two records are lost.
\<close>

theorem aborted_commit_drops_batch:
  "let (b1, o1) = flush P ns 100 pending_backend;
       (b2, o2) = transaction_event TxAbort b1;
       (b3, o3) = flush P ns 200 b2;
       b4 = log_calls [([], ''m'', details_of [])] b3;
       (b5, o5) = flush P ns 300 b4;
       (b6, o6) = transaction_event TxComplete b5
   in indexedDB b1 = Some (idle_database\<lparr>inflight :=
                        [\<lparr>tdata = [r1, r2], twrites = [Plain (snapshot ns r1), Plain (snapshot ns r2)]\<rparr>]\<rparr>)
    \<and> toFlush b1 = []
    \<and> o1 = None
    \<and> o2 = None
    \<and> toFlush b2 = []
    \<and> indexedDB b2 = Some idle_database
    \<and> o3 = Some Resolved
    \<and> b3 = b2
    \<and> o6 = Some Resolved
    \<and> indexedDB b6 = Some \<lparr>logs = [(1, Plain (snapshot ns (stored_of [])))], keygen = 2, inflight = []\<rparr>"
  by (simp add: pending_backend_def idle_database_def flush_def flushToDatabase_def addData_def
      defaultOptions_def transaction_event_def IndexedDBBackend_log_def details_of_def stored_of_def
      keyed_def Let_def)


section \<open>Compression and export\<close>

lemma decompress_compressed:
  "lossless_on P D \<Longrightarrow> decompress P (deflate P (TextEncoder_encode P (stringify P D))) = Some D"
  by (simp add: lossless_on_def decompress_def)

lemma export_cursor_append:
  "export_cursor P (xs @ ys) data =
     (case export_cursor P xs data of None \<Rightarrow> None | Some d \<Rightarrow> export_cursor P ys d)"
proof (induction P xs data rule: export_cursor.induct)
  case (1 P data)
  show ?case by simp
next
  case (2 P k t buffer rest data)
  show ?case by (simp add: cursor_continue_def split: option.splits)
next
  case (3 P k buffer rest data)
  show ?case by (simp add: cursor_continue_def split: option.splits)
next
  case (4 P k r rest data)
  then show ?case by (simp add: cursor_continue_def)
qed

lemma export_cursor_plain:
  "export_cursor P (zip ks (map (\<lambda>r. Plain (f r)) rs)) data = Some (data @ map f (take (length ks) rs))"
proof (induction rs arbitrary: ks data)
  case Nil
  show ?case by simp
next
  case (Cons r rs)
  show ?case
  proof (cases ks)
    case Nil
    then show ?thesis by simp
  next
    case (Cons k ks')
    then show ?thesis using Cons.IH [of ks' "data @ [f r]"] by (simp add: cursor_continue_def)
  qed
qed

lemma export_cursor_compressed:
  assumes "(k, Blob t buffer) \<in> set s \<or> (k, Raw buffer) \<in> set s"
  shows "export_cursor P s data = None"
  using assms
proof (induction P s data rule: export_cursor.induct)
  case (1 P data)
  then show ?case by simp
next
  case (2 P k' t' buffer' rest data)
  show ?case by (simp add: cursor_continue_def split: option.splits)
next
  case (3 P k' buffer' rest data)
  show ?case by (simp add: cursor_continue_def split: option.splits)
next
  case (4 P k' r rest data)
  then show ?case by (simp add: cursor_continue_def)
qed

lemma export_pending_on_compressed_entry:
  assumes "indexedDB b = Some db"
    and "(k, Blob t buffer) \<in> set (logs db) \<or> (k, Raw buffer) \<in> set (logs db)"
  shows "export P b = Inr None"
  using assms(1) export_cursor_compressed [OF assms(2)] by (simp add: export_def)

lemma flush_completed_plain_export:
  assumes db: "indexedDB b = Some db" and idle: "inflight db = []"
    and plain: "\<not> hasCompressionStream P"
    and old: "export P b = Inr (Some old)"
  shows "export P (flush_completed P ns now b) = Inr (Some (old @ map (snapshot ns) (toFlush b)))"
    and "\<exists>db'. indexedDB (flush_completed P ns now b) = Some db' \<and> inflight db' = []"
proof -
  have e: "export_cursor P (logs db) [] = Some old" using old by (simp add: export_def db)
  have ad: "addData P (options b) ns now (toFlush b) = map (\<lambda>r. Plain (snapshot ns r)) (toFlush b)"
    using plain by (simp add: addData_def)
  show "export P (flush_completed P ns now b) = Inr (Some (old @ map (snapshot ns) (toFlush b)))"
  proof (cases "toFlush b = []")
    case True
    then show ?thesis using old
      by (simp add: flush_completed_def flush_def flushToDatabase_def transaction_event_def db idle)
  next
    case False
    then show ?thesis
      using e export_cursor_plain [of P "[keygen db ..< keygen db + length (toFlush b)]" "snapshot ns" "toFlush b" old]
      by (simp add: flush_completed_def flush_def flushToDatabase_def transaction_event_def db idle
          Let_def export_def export_cursor_append ad keyed_def)
  qed
  show "\<exists>db'. indexedDB (flush_completed P ns now b) = Some db' \<and> inflight db' = []"
    by (cases "toFlush b = []")
      (simp_all add: flush_completed_def flush_def flushToDatabase_def transaction_event_def db idle Let_def)
qed

lemma export_log_calls: "export P (log_calls calls b) = export P b"
  by (simp add: export_def log_calls_frame)

lemma export_returns_plain_flushes:
  assumes db: "indexedDB b = Some db" and idle: "inflight db = []"
    and plain: "\<not> hasCompressionStream P"
    and old: "export P b = Inr (Some old)"
  shows "export P (successful_flushes P rounds b) = Inr (Some (old @ flushed_records P rounds b))"
  using db idle old
proof (induction rounds arbitrary: b db old)
  case Nil
  then show ?case by simp
next
  case (Cons r rounds)
  obtain calls ns now where r: "r = (calls, ns, now)" by (cases r)
  define b1 where "b1 = log_calls calls b"
  have db1: "indexedDB b1 = Some db" using Cons.prems(1) by (simp add: b1_def log_calls_frame)
  have old1: "export P b1 = Inr (Some old)" using Cons.prems(3) by (simp add: b1_def export_log_calls)
  note step = flush_completed_plain_export [OF db1 Cons.prems(2) plain old1, of ns now]
  from step(2) obtain db' where db': "indexedDB (flush_completed P ns now b1) = Some db'"
    and idle': "inflight db' = []" by blast
  from Cons.IH [OF db' idle' step(1)]
  show ?case by (simp add: r b1_def)
qed

text \<open>
  C2 does not hold of the code. Where CompressionStream does not exist every flush
  writes plain records, and \<^verbatim>\<open>export\<close> returns the flushed records in the order of
  their keys (\<open>export_returns_plain_flushes\<close>). At a compressed entry the success handler
  leaves \<^verbatim>\<open>cursor.continue()\<close> to the callback of the decompression, and there the
  read transaction is no longer active: the call throws, the cursor does not move
  on, and the promise of \<^verbatim>\<open>export\<close> is never settled
  (\<open>export_pending_on_compressed_entry\<close>). \<^verbatim>\<open>exportBatch\<close>, for its part, continues
  the cursor in the success handler itself. In the run below CompressionStream
  exists and the backend compresses from two records on; the two pending records
  are flushed, the transaction completes, and \<^verbatim>\<open>export\<close> stays pending, whatever
  the codec of the platform is.
\<close>

theorem export_pending_after_compressed_flush:
  "let Q = P\<lparr>hasCompressionStream := True\<rparr>;
       buffer = deflate Q (TextEncoder_encode Q (stringify Q [snapshot ns r1, snapshot ns r2]));
       b = successful_flushes Q [([], ns, 100)] idle_backend
   in flushed_records Q [([], ns, 100)] idle_backend = [snapshot ns r1, snapshot ns r2]
    \<and> indexedDB b = Some \<lparr>logs = [(1, Blob 100 buffer)], keygen = 2, inflight = []\<rparr>
    \<and> export Q b = Inr None"
  by (simp add: idle_backend_def idle_database_def eager_options_def defaultOptions_def
      flush_completed_def flush_def flushToDatabase_def addData_def transaction_event_def
      keyed_def export_def cursor_continue_def Let_def split: option.splits)

text \<open>
  C3: a batch at or above \<^verbatim>\<open>minimumRecordsToCompress\<close>, flushed where
  \<^verbatim>\<open>CompressionStream\<close> exists, is committed as the single entry
  \<^verbatim>\<open>{ timestamp, buffer }\<close>, and \<^verbatim>\<open>decompress\<close> of that buffer is the batch: the
  same records in the same order, each with the field values it had when the flush
  ran. The codec of the platform is taken to be lossless on this batch.
\<close>

theorem compressed_batch_round_trip:
  assumes cs: "hasCompressionStream P"
    and big: "int (length (toFlush b)) \<ge> minimumRecordsToCompress (options b)"
    and ne: "toFlush b \<noteq> []"
    and db: "indexedDB b = Some db" and idle: "inflight db = []"
    and codec: "lossless_on P (map (snapshot ns) (toFlush b))"
  shows "let buffer = deflate P (TextEncoder_encode P (stringify P (map (snapshot ns) (toFlush b))))
         in indexedDB (flush_completed P ns now b)
              = Some (db\<lparr>logs := logs db @ [(keygen db, Blob now buffer)],
                         keygen := keygen db + 1, inflight := []\<rparr>)
          \<and> decompress P buffer = Some (map (snapshot ns) (toFlush b))"
  using cs big ne decompress_compressed [OF codec]
  by (simp add: flush_completed_def flush_def flushToDatabase_def transaction_event_def db idle
      Let_def addData_def keyed_def)

theorem compressed_batch_round_trip_witness:
  "hasCompressionStream identity_platform
   \<and> minimumRecordsToCompress (options idle_backend) \<le> int (length (toFlush idle_backend))
   \<and> toFlush idle_backend \<noteq> []
   \<and> indexedDB idle_backend = Some idle_database \<and> inflight idle_database = []
   \<and> lossless_on identity_platform (map (snapshot (\<lambda>a. [])) (toFlush idle_backend))
   \<and> indexedDB (flush_completed identity_platform (\<lambda>a. []) 100 idle_backend)
       = Some \<lparr>logs = [(1, Blob 100 [snapshot (\<lambda>a. []) r1, snapshot (\<lambda>a. []) r2])],
               keygen = 2, inflight = []\<rparr>
   \<and> decompress identity_platform [snapshot (\<lambda>a. []) r1, snapshot (\<lambda>a. []) r2]
       = Some [snapshot (\<lambda>a. []) r1, snapshot (\<lambda>a. []) r2]"
proof -
  have h1: "hasCompressionStream identity_platform" by (simp add: identity_platform_def)
  have h2: "minimumRecordsToCompress (options idle_backend) \<le> int (length (toFlush idle_backend))"
    by (simp add: idle_backend_def eager_options_def defaultOptions_def)
  have h3: "toFlush idle_backend \<noteq> []" by (simp add: idle_backend_def)
  have h4: "indexedDB idle_backend = Some idle_database" by (simp add: idle_backend_def)
  have h5: "inflight idle_database = []" by (simp add: idle_database_def)
  have h6: "lossless_on identity_platform (map (snapshot (\<lambda>a. [])) (toFlush idle_backend))"
    by (simp add: lossless_on_def identity_platform_def)
  have b: "deflate identity_platform (TextEncoder_encode identity_platform
             (stringify identity_platform [snapshot (\<lambda>a. []) r1, snapshot (\<lambda>a. []) r2]))
         = [snapshot (\<lambda>a. []) r1, snapshot (\<lambda>a. []) r2]"
    by (simp add: identity_platform_def)
  have q: "map (snapshot (\<lambda>a. [])) (toFlush idle_backend)
         = [snapshot (\<lambda>a. []) r1, snapshot (\<lambda>a. []) r2]"
    by (simp add: idle_backend_def)
  show ?thesis
    using compressed_batch_round_trip [OF h1 h2 h3 h4 h5 h6, of 100] h1 h2 h3 h4 h5 h6
    by (simp add: b q Let_def idle_database_def)
qed


section \<open>Eviction\<close>













section \<open>Batch export\<close>

lemma length_batches: "0 < k \<Longrightarrow> length (batches k xs) = length xs div k + 1"
proof (induction k xs rule: batches.induct)
  case (1 k xs)
  show ?case
  proof (cases "length xs < k")
    case True
    then show ?thesis by (simp add: batches.simps [of k xs])
  next
    case False
    with 1 have "length (batches k (drop k xs)) = (length xs - k) div k + 1" by simp
    moreover have "(length xs - k) div k + 1 = length xs div k"
      using False "1.prems" by (simp add: le_div_geq)
    ultimately show ?thesis using False "1.prems" by (simp add: batches.simps [of k xs])
  qed
qed

lemma concat_batches: "concat (batches k xs) = xs"
proof (induction k xs rule: batches.induct)
  case (1 k xs)
  show ?case
  proof (cases "k = 0 \<or> length xs < k")
    case True
    then show ?thesis by (simp add: batches.simps [of k xs])
  next
    case False
    with 1 show ?thesis by (simp add: batches.simps [of k xs])
  qed
qed

lemma batches_full: "0 < k \<Longrightarrow> length xs = k \<Longrightarrow> batches k (xs @ ys) = xs # batches k ys"
  by (subst batches.simps) simp

lemma batches_short: "length xs < k \<Longrightarrow> batches k xs = [xs]"
  by (subst batches.simps) simp

lemma plain_run:
  assumes "0 < k" and "length buf < k"
  shows "foldl (batch_step P (int k))
           \<lparr>buffered = buf, empty = False, remainingPromises = rp, awaited = [],
            cursor = map (\<lambda>(key, r). (key, Plain r)) krs, decompressing = []\<rparr>
           (replicate (length krs + 1) CursorSuccess)
       = \<lparr>buffered = [], empty = True, remainingPromises = rp @ batches k (buf @ map snd krs),
          awaited = [length (rp @ batches k (buf @ map snd krs))], cursor = [], decompressing = []\<rparr>"
  using assms(2)
proof (induction krs arbitrary: buf rp)
  case Nil
  then show ?case
    by (simp add: cursor_success_def sendBuffered_def batches_short)
next
  case (Cons kr krs)
  obtain key r where kr: "kr = (key, r)" by (cases kr)
  show ?case
  proof (cases "length buf + 1 = k")
    case True
    then have full: "batches k ((buf @ [r]) @ map snd krs) = (buf @ [r]) # batches k (map snd krs)"
      using assms(1) by (intro batches_full) simp_all
    have "0 < k" by (rule assms(1))
    then have z: "length ([] :: DurableDetails list) < k" by simp
    show ?thesis
      using True Cons.IH [OF z, of "rp @ [buf @ [r]]"] full
      by (simp add: kr cursor_success_def sendBuffered_def)
  next
    case False
    with Cons.prems have short: "length (buf @ [r]) < k" by simp
    show ?thesis
      using False Cons.prems Cons.IH [OF short, of rp]
      by (simp add: kr cursor_success_def sendBuffered_def)
  qed
qed

lemma sendBuffered_outstanding: "outstanding P (sendBuffered k st) = outstanding P st"
  by (simp add: sendBuffered_def outstanding_def Let_def)

lemma remove_nth_records:
  assumes "i < length xs"
  shows "mset (concat (map f (take i xs @ drop (Suc i) xs))) + mset (f (xs ! i))
       = mset (concat (map f xs))"
proof -
  have "xs = take i xs @ xs ! i # drop (Suc i) xs" using assms by (rule id_take_nth_drop)
  then have "mset (concat (map f xs))
      = mset (concat (map f (take i xs @ xs ! i # drop (Suc i) xs)))" by simp
  then show ?thesis by simp
qed

lemma batch_step_outstanding: "outstanding P (batch_step P k st ev) = outstanding P st"
proof (cases ev)
  case CursorSuccess
  show ?thesis
  proof (cases "empty st")
    case True
    then show ?thesis by (simp add: CursorSuccess cursor_success_def)
  next
    case False
    show ?thesis
    proof (cases "cursor st")
      case Nil
      then show ?thesis using False
        by (simp add: CursorSuccess cursor_success_def sendBuffered_outstanding) (simp add: outstanding_def)
    next
      case (Cons x rest)
      obtain key e where x: "x = (key, e)" by (cases x)
      show ?thesis
        using False Cons
        by (cases e)
          (simp_all add: CursorSuccess cursor_success_def x sendBuffered_outstanding,
           simp_all add: outstanding_def entry_records_def)
    qed
  qed
next
  case (DecompressionDone i)
  show ?thesis
  proof (cases "i < length (decompressing st)")
    case False
    then show ?thesis by (simp add: DecompressionDone decompression_done_def)
  next
    case True
    define f where "f = (\<lambda>buffer. case decompress P buffer of None \<Rightarrow> [] | Some c \<Rightarrow> c)"
    note rm = remove_nth_records [OF True, of f]
    show ?thesis
    proof (cases "decompress P (decompressing st ! i)")
      case None
      then have "f (decompressing st ! i) = []" by (simp add: f_def)
      with rm show ?thesis using True None
        by (simp add: DecompressionDone decompression_done_def Let_def outstanding_def f_def)
    next
      case (Some content)
      then have "f (decompressing st ! i) = content" by (simp add: f_def)
      with rm show ?thesis using True Some
        by (simp add: DecompressionDone decompression_done_def Let_def sendBuffered_outstanding)
           (simp add: outstanding_def f_def ac_simps)
    qed
  qed
qed

lemma sendBuffered_drained: "empty st \<Longrightarrow> buffered (sendBuffered k st) = []"
  by (simp add: sendBuffered_def Let_def)

lemma sendBuffered_empty: "empty (sendBuffered k st) = empty st"
  by (simp add: sendBuffered_def Let_def)

lemma batch_step_drained:
  assumes "empty st \<longrightarrow> buffered st = []"
  shows "empty (batch_step P k st ev) \<longrightarrow> buffered (batch_step P k st ev) = []"
proof (cases ev)
  case CursorSuccess
  show ?thesis
  proof (cases "empty st")
    case True
    with assms show ?thesis by (simp add: CursorSuccess cursor_success_def)
  next
    case False
    show ?thesis
    proof (cases "cursor st")
      case Nil
      then show ?thesis using False
        by (simp add: CursorSuccess cursor_success_def sendBuffered_drained)
    next
      case (Cons x rest)
      obtain key e where x: "x = (key, e)" by (cases x)
      show ?thesis
        using False Cons
        by (cases e) (simp_all add: CursorSuccess cursor_success_def x sendBuffered_empty)
    qed
  qed
next
  case (DecompressionDone i)
  show ?thesis
    using assms
    by (auto simp: DecompressionDone decompression_done_def Let_def sendBuffered_drained
        sendBuffered_empty split: option.splits)
qed

lemma run_outstanding: "outstanding P (foldl (batch_step P k) st evs) = outstanding P st"
  by (induction evs arbitrary: st) (simp_all add: batch_step_outstanding)

lemma run_drained:
  "(empty st \<longrightarrow> buffered st = []) \<Longrightarrow>
   empty (foldl (batch_step P k) st evs) \<longrightarrow> buffered (foldl (batch_step P k) st evs) = []"
proof (induction evs arbitrary: st)
  case Nil
  then show ?case by simp
next
  case (Cons ev evs)
  from Cons.IH [OF batch_step_drained [OF Cons.prems, of P k ev]]
  show ?case by simp
qed

text \<open>
  C5, as the code has it. On an initialised store, with a batch size of at least 1:
  when every entry is a plain record (\<open>M\<close> of them), \<^verbatim>\<open>exportBatch\<close> calls the
  consumer \<open>M div k + 1\<close> times, with \<open>M div k\<close> batches of \<open>k\<close> records and then the
  remaining \<open>M mod k\<close> records (none when \<open>k\<close> divides \<open>M\<close>), the batches together
  are the records in order, and the promise waits for all of these calls; and for
  any store and any order of the cursor events and decompression callbacks, once
  the cursor has ended and no decompression is under way, the batches handed over
  hold every record of the store exactly once.
\<close>

theorem exportBatch_dispatches_each_record:
  assumes db: "indexedDB b = Some db" and k: "1 \<le> entriesAtOnce"
  shows "(map snd (logs db) = map Plain rs \<longrightarrow>
            consumer_calls (exportBatch P entriesAtOnce (replicate (length rs + 1) CursorSuccess) b)
              = batches (nat entriesAtOnce) rs
          \<and> length (batches (nat entriesAtOnce) rs) = length rs div nat entriesAtOnce + 1
          \<and> concat (batches (nat entriesAtOnce) rs) = rs
          \<and> promise_waits_for (exportBatch P entriesAtOnce (replicate (length rs + 1) CursorSuccess) b)
              = [length rs div nat entriesAtOnce + 1])
       \<and> (\<forall>schedule st. exportBatch P entriesAtOnce schedule b = Inr st \<and> complete st \<longrightarrow>
            mset (concat (remainingPromises st))
              = mset (concat (map (\<lambda>x. entry_records P (snd x)) (logs db))))"
proof (intro conjI impI allI)
  define n where "n = nat entriesAtOnce"
  have n: "0 < n" "int n = entriesAtOnce" using k by (simp_all add: n_def)
  assume plain: "map snd (logs db) = map Plain rs"
  define krs where "krs = zip (map fst (logs db)) rs"
  have len: "length rs = length (logs db)" using plain by (metis length_map)
  have c: "logs db = map (\<lambda>(key, r). (key, Plain r)) krs"
  proof (rule nth_equalityI)
    show "length (logs db) = length (map (\<lambda>(key, r). (key, Plain r)) krs)"
      by (simp add: krs_def len)
  next
    fix i assume i: "i < length (logs db)"
    then have "snd (logs db ! i) = Plain (rs ! i)"
      using plain by (metis len nth_map)
    then show "logs db ! i = map (\<lambda>(key, r). (key, Plain r)) krs ! i"
      using i len by (simp add: krs_def prod_eq_iff)
  qed
  have rs: "map snd krs = rs" by (simp add: krs_def len)
  have lk: "length krs = length rs" by (simp add: krs_def len)
  have z: "length ([] :: DurableDetails list) < n" using n by simp
  have run: "exportBatch P entriesAtOnce (replicate (length rs + 1) CursorSuccess) b
      = Inr \<lparr>buffered = [], empty = True, remainingPromises = batches n rs,
              awaited = [length (batches n rs)], cursor = [], decompressing = []\<rparr>"
    using plain_run [OF n(1) z, of P "[]" krs]
    by (simp add: exportBatch_def db batch_init_def c [symmetric] rs lk n(2))
  show "consumer_calls (exportBatch P entriesAtOnce (replicate (length rs + 1) CursorSuccess) b)
      = batches (nat entriesAtOnce) rs"
    unfolding run by (simp add: consumer_calls_def n_def)
  show "length (batches (nat entriesAtOnce) rs) = length rs div nat entriesAtOnce + 1"
    using length_batches [OF n(1), of rs] by (simp add: n_def)
  show "concat (batches (nat entriesAtOnce) rs) = rs" by (rule concat_batches)
  show "promise_waits_for (exportBatch P entriesAtOnce (replicate (length rs + 1) CursorSuccess) b)
      = [length rs div nat entriesAtOnce + 1]"
    unfolding run using length_batches [OF n(1), of rs] by (simp add: promise_waits_for_def n_def)
next
  fix schedule st
  assume a: "exportBatch P entriesAtOnce schedule b = Inr st \<and> complete st"
  then have st: "st = foldl (batch_step P entriesAtOnce) (batch_init (logs db)) schedule"
    by (simp add: exportBatch_def db)
  have "outstanding P st = outstanding P (batch_init (logs db))"
    unfolding st by (rule run_outstanding)
  moreover have "buffered st = []"
    using a run_drained [of "batch_init (logs db)" P entriesAtOnce schedule]
    by (simp add: st complete_def batch_init_def)
  ultimately show "mset (concat (remainingPromises st))
      = mset (concat (map (\<lambda>x. entry_records P (snd x)) (logs db)))"
    using a by (simp add: outstanding_def complete_def batch_init_def)
qed


theorem exportBatch_dispatches_each_record_witness:
  "indexedDB aged_backend = Some aged_database \<and> (1 :: int) \<le> 2
   \<and> map snd (logs aged_database)
       = map Plain [plain_at 10, plain_at 20, plain_at 30, plain_at 40, plain_at 50]
   \<and> consumer_calls (exportBatch identity_platform 2 six_successes aged_backend)
       = [[plain_at 10, plain_at 20], [plain_at 30, plain_at 40], [plain_at 50]]
   \<and> promise_waits_for (exportBatch identity_platform 2 six_successes aged_backend)
       = [3]
   \<and> (\<exists>st. exportBatch identity_platform 2 six_successes aged_backend = Inr st
          \<and> complete st
          \<and> mset (concat (remainingPromises st))
              = mset [plain_at 10, plain_at 20, plain_at 30, plain_at 40, plain_at 50])"
proof -
  define rs where "rs = [plain_at 10, plain_at 20, plain_at 30, plain_at 40, plain_at 50]"
  have h1: "indexedDB aged_backend = Some aged_database" by (simp add: aged_backend_def)
  have h2: "(1 :: int) \<le> 2" by simp
  have h3: "map snd (logs aged_database) = map Plain rs" by (simp add: aged_database_def rs_def)
  have six: "replicate (length rs + 1) CursorSuccess = six_successes"
    by (simp add: rs_def six_successes_def)
  have bs: "batches (nat 2) rs = [[plain_at 10, plain_at 20], [plain_at 30, plain_at 40], [plain_at 50]]"
    by (simp add: rs_def batches.simps)
  have recs: "concat (map (\<lambda>x. entry_records identity_platform (snd x)) (logs aged_database)) = rs"
    by (simp add: aged_database_def entry_records_def rs_def)
  note t = exportBatch_dispatches_each_record [OF h1 h2, of rs identity_platform]
  from t h3 have calls: "consumer_calls (exportBatch identity_platform 2 six_successes aged_backend)
      = [[plain_at 10, plain_at 20], [plain_at 30, plain_at 40], [plain_at 50]]"
    and waits: "promise_waits_for (exportBatch identity_platform 2 six_successes aged_backend) = [3]"
    unfolding six bs by (simp_all add: rs_def)
  obtain st where st: "exportBatch identity_platform 2 six_successes aged_backend = Inr st"
    by (simp add: exportBatch_def h1)
  have comp: "complete st"
    using st
    by (auto simp: exportBatch_def aged_backend_def aged_database_def batch_init_def complete_def
        cursor_success_def sendBuffered_def six_successes_def Let_def)
  from t st comp have "mset (concat (remainingPromises st)) = mset rs"
    unfolding recs by blast
  then show ?thesis
    using h1 h2 h3 calls waits st comp unfolding rs_def by blast
qed

text \<open>
  C5 as stated fails. Two plain records and a batch size of 2 give two consumer
  calls, the second with no record, where the claim has one. And where the only
  entry is compressed and its decompression completes after the cursor has ended,
  the first \<^verbatim>\<open>Promise.all\<close> is given the one consumer promise of the empty batch,
  so the promise of \<^verbatim>\<open>exportBatch\<close> does not wait for the call that carries the
  records.
\<close>

theorem exportBatch_call_count_counterexample:
  "consumer_calls (exportBatch identity_platform 2 [CursorSuccess, CursorSuccess, CursorSuccess]
       two_plain_backend) = [[plain_at 10, plain_at 20], []]
   \<and> ceil_div 2 2 = 1
   \<and> consumer_calls (exportBatch identity_platform 1
         [CursorSuccess, CursorSuccess, DecompressionDone 0] packed_backend)
       = [[], [plain_at 10, plain_at 20]]
   \<and> promise_waits_for (exportBatch identity_platform 1
         [CursorSuccess, CursorSuccess, DecompressionDone 0] packed_backend) = [1, 2]"
  by (simp add: consumer_calls_def promise_waits_for_def exportBatch_def two_plain_backend_def
      packed_backend_def batch_init_def cursor_success_def decompression_done_def sendBuffered_def
      decompress_def identity_platform_def ceil_div_def Let_def)

section \<open>Encoding the arguments of a log call\<close>

lemma sequence_sum_map_Inr: "sequence_sum (map Inr ys) = Inr ys"
  by (induction ys) simp_all

lemma sequence_sum_Inr:
  "sequence_sum rs = Inr ys \<longleftrightarrow> rs = map Inr ys"
proof
  show "sequence_sum rs = Inr ys \<Longrightarrow> rs = map Inr ys"
  proof (induction rs arbitrary: ys rule: sequence_sum.induct)
    case 1
    then show ?case by simp
  next
    case (2 e rs)
    then show ?case by simp
  next
    case (3 x rs)
    then show ?case by (auto split: sum.splits)
  qed
next
  show "rs = map Inr ys \<Longrightarrow> sequence_sum rs = Inr ys"
    by (simp add: sequence_sum_map_Inr)
qed

lemma sequence_sum_Inl:
  "sequence_sum rs = Inl e \<Longrightarrow> Inl e \<in> set rs"
proof (induction rs rule: sequence_sum.induct)
  case 1
  then show ?case by simp
next
  case (2 e' rs)
  then show ?case by simp
next
  case (3 x rs)
  then show ?case by (auto split: sum.splits)
qed

lemma sequence_sum_raises:
  "Inl e \<in> set rs \<Longrightarrow> \<exists>e'. sequence_sum rs = Inl e'"
proof (induction rs rule: sequence_sum.induct)
  case 1
  then show ?case by simp
next
  case (2 e' rs)
  then show ?case by simp
next
  case (3 x rs)
  then show ?case by (auto split: sum.splits)
qed

lemma stringify_error: "JSON_stringify h stack v = Inl e \<Longrightarrow> e = TypeError"
proof (induction h stack v rule: JSON_stringify.induct)
  case (8 h stack a)
  show ?case
  proof (cases "a \<in> set stack")
    case True
    with 8 show ?thesis by simp
  next
    case False
    show ?thesis
    proof (cases "map_of h a")
      case None
      with 8 False show ?thesis by simp
    next
      case (Some ob)
      with "8.prems" False
      have "sequence_sum (map (\<lambda>kv. JSON_stringify h (a # stack) (snd kv)) (ownProps ob)) = Inl e"
        by (simp split: sum.splits)
      then have "Inl e \<in> set (map (\<lambda>kv. JSON_stringify h (a # stack) (snd kv)) (ownProps ob))"
        by (rule sequence_sum_Inl)
      then have "Inl e \<in> (\<lambda>kv. JSON_stringify h (a # stack) (snd kv)) ` set (ownProps ob)"
        by (simp only: set_map)
      then obtain kv where "kv \<in> set (ownProps ob)" "JSON_stringify h (a # stack) (snd kv) = Inl e"
        by (metis (no_types, lifting) imageE)
      with "8.IH" [OF False Some] show ?thesis by blast
    qed
  qed
qed simp_all

lemma stringify_object: "JSON_stringify h stack (JRef a) = Inr t \<Longrightarrow> \<exists>text. t = Some text"
  by (auto split: if_splits option.splits sum.splits)

lemma stringify_self_reference:
  assumes "has_itself_as_property h item"
  shows "JSON_stringify h [] item = Inl TypeError"
proof -
  from assms obtain a ob where item: "item = JRef a" and ob: "map_of h a = Some ob"
    and self: "JRef a \<in> set (map snd (ownProps ob))"
    by (auto simp: has_itself_as_property_def split: jsval.splits option.splits)
  from self obtain kv where kv: "kv \<in> set (ownProps ob)" and snd: "snd kv = JRef a" by auto
  have "JSON_stringify h [a] (snd kv) = Inl TypeError" unfolding snd by simp
  then have "Inl TypeError \<in> (\<lambda>kv. JSON_stringify h [a] (snd kv)) ` set (ownProps ob)"
    using kv by (metis rev_image_eqI)
  then have "Inl TypeError \<in> set (map (\<lambda>kv. JSON_stringify h [a] (snd kv)) (ownProps ob))"
    by (simp only: set_map)
  from sequence_sum_raises [OF this]
  obtain e where e: "sequence_sum (map (\<lambda>kv. JSON_stringify h [a] (snd kv)) (ownProps ob)) = Inl e" ..
  then have "JSON_stringify h [] (JRef a) = Inl e" by (simp add: ob)
  then show ?thesis using stringify_error item by blast
qed

lemma encode_falsy: "\<not> truthy item \<Longrightarrow> encode h item = Inr (JStr [])"
  by (simp add: encode_def)

lemma encode_primitive:
  "truthy item \<Longrightarrow> typeof_js item \<noteq> ''object'' \<Longrightarrow>
   \<exists>s. toString_js item = Some s \<and> encode h item = Inr (JStr s)"
  by (cases item) (simp_all add: encode_def)

lemma encode_object:
  assumes "truthy item" and "typeof_js item = ''object''"
    and "JSON_stringify h [] item = Inr (Some text)"
    and "text \<noteq> ''{}'' \<or> Object_keys h item = []"
  shows "encode h item = Inr (JStr text)"
  using assms by (auto simp: encode_def js_of_text_def)

lemma encode_raises:
  assumes "truthy item" and "typeof_js item = ''object''" and "JSON_stringify h [] item = Inl e"
  shows "encode h item = Inl e"
  using assms by (simp add: encode_def)

lemma get_constructor_error: "get_constructor h v = Inl e \<Longrightarrow> e = TypeError"
  by (cases v) (simp_all split: option.splits)

lemma get_name_error: "get_name h v = Inl e \<Longrightarrow> e = TypeError"
  by (cases v) (simp_all split: option.splits)

lemma encode_error:
  assumes "encode h item = Inl e"
  shows "e = TypeError"
proof (cases "JSON_stringify h [] item")
  case (Inl e')
  with assms show ?thesis
    by (simp add: encode_def split: if_splits option.splits) (simp add: stringify_error [OF Inl])
next
  case (Inr encoded)
  show ?thesis
  proof (cases "get_constructor h item")
    case (Inl e')
    with assms Inr show ?thesis
      by (simp add: encode_def split: if_splits option.splits) (simp add: get_constructor_error [OF Inl])
  next
    case ctor: (Inr ctor)
    show ?thesis
    proof (cases "get_name h ctor")
      case (Inl e')
      with assms Inr ctor show ?thesis
        by (simp add: encode_def split: if_splits option.splits) (simp add: get_name_error [OF Inl])
    next
      case nm: (Inr nm)
      with assms Inr ctor show ?thesis
        by (simp add: encode_def split: if_splits option.splits)
    qed
  qed
qed

lemma encode_plainly:
  assumes "encodes_plainly h item"
  shows "\<exists>s. encode h item = Inr (JStr s)"
proof (cases "truthy item")
  case False
  then show ?thesis by (simp add: encode_falsy)
next
  case True
  show ?thesis
  proof (cases "typeof_js item = ''object''")
    case False
    with True encode_primitive show ?thesis by blast
  next
    case obj: True
    from assms True obj obtain js where "JSON_stringify h [] item = Inr (Some js)"
      and "js \<noteq> ''{}'' \<or> Object_keys h item = []"
      by (auto simp: encodes_plainly_def split: sum.splits option.splits)
    with True obj encode_object show ?thesis by blast
  qed
qed

lemma encode_encoded_as:
  assumes "encode h item = Inr enc"
  shows "encoded_as h item enc"
proof (cases "truthy item")
  case False
  with assms show ?thesis by (simp add: encode_falsy encoded_as_def)
next
  case True
  show ?thesis
  proof (cases "typeof_js item = ''object''")
    case False
    with True encode_primitive [of item h] assms show ?thesis
      by (auto simp: encoded_as_def)
  next
    case obj: True
    then obtain a where item: "item = JRef a" using True by (cases item) simp_all
    show ?thesis
    proof (cases "JSON_stringify h [] item")
      case (Inl e)
      with True obj assms show ?thesis by (simp add: encode_raises)
    next
      case (Inr t)
      then obtain js where t: "t = Some js" using stringify_object item by blast
      show ?thesis
        using True obj Inr t assms encode_object [OF True obj, of h js]
        by (auto simp: encoded_as_def)
    qed
  qed
qed

text \<open>
  C6, as the code has it. \<^verbatim>\<open>log\<close> returns, with one record queued whose arguments
  are all strings, whenever every argument is falsy, or not an object, or an object
  whose JSON text is not \<^verbatim>\<open>{}\<close> or that has no own enumerable key. When an argument
  is an object that has itself as the value of a property, \<^verbatim>\<open>JSON.stringify\<close>
  throws, nothing catches it, and \<^verbatim>\<open>log\<close> raises a TypeError to its caller.
\<close>

theorem log_returns_on_encodable_arguments:
  "((\<forall>item\<in>set (arguments d). encodes_plainly h item) \<longrightarrow>
      (\<exists>b' r. IndexedDBBackend_log h msg d b = Inr b' \<and> toFlush b' = toFlush b @ [r]
          \<and> (\<forall>enc\<in>set (arguments r). \<exists>s. enc = JStr s)))
   \<and> ((\<exists>item\<in>set (arguments d). has_itself_as_property h item) \<longrightarrow>
      IndexedDBBackend_log h msg d b = Inl TypeError)"
proof (intro conjI impI)
  assume safe: "\<forall>item\<in>set (arguments d). encodes_plainly h item"
  define encs where "encs = map (\<lambda>item. projr (encode h item)) (arguments d)"
  have each: "encode h item = Inr (projr (encode h item)) \<and> (\<exists>s. projr (encode h item) = JStr s)"
    if "item \<in> set (arguments d)" for item
    using encode_plainly [of h item] safe that by auto
  then have "map (encode h) (arguments d) = map Inr encs"
    by (simp add: encs_def)
  then have seq: "sequence_sum (map (encode h) (arguments d)) = Inr encs"
    by (simp add: sequence_sum_Inr)
  define r :: StoredDetails where "r = \<lparr>timestamp = getTime (timestamp d), arguments = encs,
      namespaces = namespaces d, level = level d, contextId = contextId d, message = msg\<rparr>"
  have "IndexedDBBackend_log h msg d b = Inr (b\<lparr>toFlush := toFlush b @ [r]\<rparr>)"
    by (simp add: IndexedDBBackend_log_def seq r_def)
  moreover have "\<forall>enc\<in>set (arguments r). \<exists>s. enc = JStr s"
    using each by (auto simp: r_def encs_def)
  ultimately show "\<exists>b' r. IndexedDBBackend_log h msg d b = Inr b' \<and> toFlush b' = toFlush b @ [r]
          \<and> (\<forall>enc\<in>set (arguments r). \<exists>s. enc = JStr s)"
    by (intro exI [of _ "b\<lparr>toFlush := toFlush b @ [r]\<rparr>"] exI [of _ r]) simp
next
  assume "\<exists>item\<in>set (arguments d). has_itself_as_property h item"
  then obtain item where i: "item \<in> set (arguments d)" and self: "has_itself_as_property h item" ..
  from self have obj: "truthy item" "typeof_js item = ''object''"
    by (auto simp: has_itself_as_property_def split: jsval.splits)
  have "encode h item = Inl TypeError"
    using encode_raises [OF obj stringify_self_reference [OF self]] .
  then have "Inl TypeError \<in> encode h ` set (arguments d)" using i by (metis rev_image_eqI)
  then have "Inl TypeError \<in> set (map (encode h) (arguments d))" by (simp only: set_map)
  from sequence_sum_raises [OF this]
  obtain e where e: "sequence_sum (map (encode h) (arguments d)) = Inl e" ..
  then have "Inl e \<in> set (map (encode h) (arguments d))" by (rule sequence_sum_Inl)
  then have "Inl e \<in> encode h ` set (arguments d)" by (simp only: set_map)
  then obtain item' where "encode h item' = Inl e" by (metis imageE)
  then have "e = TypeError" by (rule encode_error)
  with e show "IndexedDBBackend_log h msg d b = Inl TypeError"
    by (simp add: IndexedDBBackend_log_def)
qed

theorem log_returns_on_encodable_arguments_witness:
  "encodes_plainly plain_heap (JRef 0) \<and> encodes_plainly plain_heap (JNum (safe 7))
   \<and> encodes_plainly plain_heap JUndefined
   \<and> (\<exists>b' r. IndexedDBBackend_log plain_heap ''m'' (details_of [JRef 0, JNum (safe 7), JUndefined]) idle_backend
                 = Inr b'
             \<and> toFlush b' = toFlush idle_backend @ [r]
             \<and> (\<forall>enc\<in>set (arguments r). \<exists>s. enc = JStr s))
   \<and> has_itself_as_property circular_heap (JRef 0)
   \<and> IndexedDBBackend_log circular_heap ''m'' (details_of [JRef 0]) idle_backend = Inl TypeError"
proof -
  have p1: "encodes_plainly plain_heap (JRef 0)"
    by (simp add: encodes_plainly_def plain_heap_def object_text_def json_quote_def json_escape_def
        Number_toString_def safe_inverse show_int_def show_nat.simps digit_char_def)
  have p2: "encodes_plainly plain_heap (JNum (safe 7))" and p3: "encodes_plainly plain_heap JUndefined"
    by (simp_all add: encodes_plainly_def)
  have s: "has_itself_as_property circular_heap (JRef 0)"
    by (simp add: has_itself_as_property_def circular_heap_def)
  have a: "\<forall>item\<in>set (arguments (details_of [JRef 0, JNum (safe 7), JUndefined])). encodes_plainly plain_heap item"
    using p1 p2 p3 by (simp add: details_of_def)
  have b: "\<exists>item\<in>set (arguments (details_of [JRef 0])). has_itself_as_property circular_heap item"
    using s by (simp add: details_of_def)
  from log_returns_on_encodable_arguments [of "details_of [JRef 0, JNum (safe 7), JUndefined]" plain_heap "''m''" idle_backend] a
  have A: "\<exists>b' r. IndexedDBBackend_log plain_heap ''m'' (details_of [JRef 0, JNum (safe 7), JUndefined]) idle_backend
                 = Inr b'
             \<and> toFlush b' = toFlush idle_backend @ [r]
             \<and> (\<forall>enc\<in>set (arguments r). \<exists>s. enc = JStr s)"
    by blast
  from log_returns_on_encodable_arguments [of "details_of [JRef 0]" circular_heap "''m''" idle_backend] b
  have B: "IndexedDBBackend_log circular_heap ''m'' (details_of [JRef 0]) idle_backend = Inl TypeError"
    by blast
  show ?thesis using p1 p2 p3 A s B by blast
qed

text \<open>
  C6 as stated fails: a log call with an argument that refers to itself raises.
\<close>

theorem log_raises_on_circular_argument:
  "IndexedDBBackend_log circular_heap ''m'' (details_of [JRef 0]) idle_backend = Inl TypeError"
  by (simp add: IndexedDBBackend_log_def details_of_def circular_heap_def encode_def)

text \<open>
  C7, as the code has it. A log call that returns has appended one record to the
  pending queue: its timestamp is \<^verbatim>\<open>details.timestamp.getTime()\<close>, its message,
  namespaces reference, level and context are those of the call, and each argument
  is replaced by its encoding: the empty string for a falsy value (undefined, null,
  false, 0, NaN, the empty string), the string form for any other value that is not
  an object, and for an object its JSON text, when that text is not \<^verbatim>\<open>{}\<close> or the
  object has no own enumerable key.
\<close>

theorem log_appends_encoded_record:
  assumes "IndexedDBBackend_log h msg d b = Inr b'"
  shows "\<exists>r. b' = b\<lparr>toFlush := toFlush b @ [r]\<rparr>
           \<and> timestamp r = getTime (timestamp d) \<and> message r = msg
           \<and> namespaces r = namespaces d \<and> level r = level d \<and> contextId r = contextId d
           \<and> length (arguments r) = length (arguments d)
           \<and> (\<forall>i < length (arguments d). encoded_as h (arguments d ! i) (arguments r ! i))"
proof -
  from assms obtain encs where seq: "sequence_sum (map (encode h) (arguments d)) = Inr encs"
    by (auto simp: IndexedDBBackend_log_def split: sum.splits)
  define r :: StoredDetails where "r = \<lparr>timestamp = getTime (timestamp d), arguments = encs,
      namespaces = namespaces d, level = level d, contextId = contextId d, message = msg\<rparr>"
  have b': "b' = b\<lparr>toFlush := toFlush b @ [r]\<rparr>"
    using assms by (simp add: IndexedDBBackend_log_def seq r_def)
  from seq have m: "map (encode h) (arguments d) = map Inr encs" by (simp add: sequence_sum_Inr)
  then have len: "length encs = length (arguments d)" by (metis length_map)
  have "encoded_as h (arguments d ! i) (encs ! i)" if "i < length (arguments d)" for i
  proof -
    have "encode h (arguments d ! i) = map (encode h) (arguments d) ! i" using that by simp
    also have "\<dots> = Inr (encs ! i)" unfolding m using that len by simp
    finally show ?thesis by (rule encode_encoded_as)
  qed
  then show ?thesis
    using b' len by (intro exI [of _ r]) (simp add: r_def)
qed


theorem log_appends_encoded_record_witness:
  "IndexedDBBackend_log plain_heap ''m'' (details_of [JRef 0, JNum (safe 7), JUndefined]) idle_backend
     = Inr (idle_backend\<lparr>toFlush := [r1, r2,
              stored_of [JStr (''{'' @ [CHR 0x22] @ ''a'' @ [CHR 0x22] @ '':1}''), JStr ''7'', JStr '''']]\<rparr>)
   \<and> (\<exists>r. idle_backend\<lparr>toFlush := [r1, r2,
              stored_of [JStr (''{'' @ [CHR 0x22] @ ''a'' @ [CHR 0x22] @ '':1}''), JStr ''7'', JStr '''']]\<rparr>
             = idle_backend\<lparr>toFlush := toFlush idle_backend @ [r]\<rparr>
          \<and> timestamp r = 5 \<and> message r = ''m'' \<and> namespaces r = 0 \<and> level r = NOTICE
          \<and> length (arguments r) = 3
          \<and> encoded_as plain_heap (JRef 0) (arguments r ! 0)
          \<and> encoded_as plain_heap (JNum (safe 7)) (arguments r ! 1)
          \<and> encoded_as plain_heap JUndefined (arguments r ! 2))"
proof -
  have l: "IndexedDBBackend_log plain_heap ''m'' (details_of [JRef 0, JNum (safe 7), JUndefined]) idle_backend
     = Inr (idle_backend\<lparr>toFlush := [r1, r2,
              stored_of [JStr (''{'' @ [CHR 0x22] @ ''a'' @ [CHR 0x22] @ '':1}''), JStr ''7'', JStr '''']]\<rparr>)"
    by (simp add: IndexedDBBackend_log_def details_of_def stored_of_def idle_backend_def encode_def
        Number_toString_def safe_inverse show_int_def show_nat.simps digit_char_def plain_heap_def object_text_def js_of_text_def
        json_quote_def json_escape_def)
  from log_appends_encoded_record [OF l] obtain r where
    r: "idle_backend\<lparr>toFlush := [r1, r2,
              stored_of [JStr (''{'' @ [CHR 0x22] @ ''a'' @ [CHR 0x22] @ '':1}''), JStr ''7'', JStr '''']]\<rparr>
             = idle_backend\<lparr>toFlush := toFlush idle_backend @ [r]\<rparr>"
    and f: "timestamp r = getTime (timestamp (details_of [JRef 0, JNum (safe 7), JUndefined]))"
      "message r = ''m''" "namespaces r = namespaces (details_of [JRef 0, JNum (safe 7), JUndefined])"
      "level r = level (details_of [JRef 0, JNum (safe 7), JUndefined])"
      "length (arguments r) = length (arguments (details_of [JRef 0, JNum (safe 7), JUndefined]))"
    and e: "\<forall>i < length (arguments (details_of [JRef 0, JNum (safe 7), JUndefined])).
              encoded_as plain_heap (arguments (details_of [JRef 0, JNum (safe 7), JUndefined]) ! i) (arguments r ! i)"
    by blast
  have e0: "encoded_as plain_heap (JRef 0) (arguments r ! 0)"
    using e [rule_format, of 0] by (simp add: details_of_def)
  have e1: "encoded_as plain_heap (JNum (safe 7)) (arguments r ! 1)"
    using e [rule_format, of 1] by (simp add: details_of_def)
  have e2: "encoded_as plain_heap JUndefined (arguments r ! 2)"
    using e [rule_format, of 2] by (simp add: details_of_def)
  show ?thesis
    using l r f e0 e1 e2 by (intro conjI exI [of _ r]) (simp_all add: details_of_def)
qed

text \<open>
  C7 as stated fails: the arguments 0 and false are recorded as the empty string,
  not as their string forms. And an instance of a class whose only own property
  is a function is recorded as \<^verbatim>\<open>{}\<close>, not as the name of its constructor: the
  constructor is a function, and the code asks for one of type \<^verbatim>\<open>object\<close>.
\<close>

theorem log_encodes_falsy_as_empty_counterexample:
  "IndexedDBBackend_log [] ''m'' (details_of [JNum (safe 0), JBool False]) idle_backend
     = Inr (idle_backend\<lparr>toFlush := [r1, r2, stored_of [JStr '''', JStr '''']]\<rparr>)
   \<and> toString_js (JNum (safe 0)) = Some ''0'' \<and> toString_js (JBool False) = Some ''false''
   \<and> encode widget_heap (JRef 0) = Inr (JStr ''{}'')
   \<and> get_constructor widget_heap (JRef 0) = Inr (JFunction ''Widget'' ''class Widget { }'')"
  by (simp add: IndexedDBBackend_log_def details_of_def stored_of_def idle_backend_def encode_def
      Number_toString_def safe_inverse show_int_def show_nat.simps digit_char_def widget_heap_def object_text_def js_of_text_def)

section \<open>The file backend\<close>

lemma refused_Nil: "refused accepts n [] = []"
  by (simp add: refused_def)

lemma refused_Cons:
  "refused accepts n (w # ws) = (if accepts n then [] else [w]) @ refused accepts (Suc n) ws"
proof -
  have "[n ..< n + length (w # ws)] = n # [Suc n ..< Suc n + length ws]"
    by (subst upt_rec) simp
  then show ?thesis by (simp add: refused_def)
qed

lemma refused_append:
  "refused accepts n (xs @ ys) = refused accepts n xs @ refused accepts (n + length xs) ys"
  by (induction xs arbitrary: n) (simp_all add: refused_Nil refused_Cons)

lemma write_ready:
  assumes "messages \<noteq> []"
  shows "FileBackend_write accepts messages (ready_backend cs ls)
       = ready_backend (cs @ [join [CHR 0x0D, CHR 0x0A] messages])
           (ls @ (if accepts (length cs) then [] else [messages]))"
  using assms by (simp add: FileBackend_write_def ready_backend_def Let_def)

lemma write_all_ready:
  assumes "\<forall>messages\<in>set ws. messages \<noteq> []"
  shows "foldl (\<lambda>f messages. FileBackend_write accepts messages f) (ready_backend cs ls) ws
       = ready_backend (cs @ map (join [CHR 0x0D, CHR 0x0A]) ws) (ls @ refused accepts (length cs) ws)"
  using assms
proof (induction ws arbitrary: cs ls)
  case Nil
  show ?case by (simp add: refused_Nil)
next
  case (Cons w ws)
  then have w: "w \<noteq> []" and rest: "\<forall>messages\<in>set ws. messages \<noteq> []" by simp_all
  show ?case
    using Cons.IH [OF rest] by (simp add: write_ready [OF w] refused_Cons)
qed

lemma logs_ready:
  "foldl (file_step accepts) (ready_backend cs ls) (map FLog post)
     = ready_backend (cs @ post) (ls @ refused accepts (length cs) (map (\<lambda>m. [m]) post))"
proof -
  have "foldl (file_step accepts) fb (map FLog post)
      = foldl (\<lambda>f messages. FileBackend_write accepts messages f) fb (map (\<lambda>m. [m]) post)" for fb
    by (induction post arbitrary: fb) (simp_all add: FileBackend_log_def)
  moreover have "map (join [CHR 0x0D, CHR 0x0A]) (map (\<lambda>m. [m]) post) = post"
    by (induction post) simp_all
  ultimately show ?thesis
    using write_all_ready [of "map (\<lambda>m. [m]) post" accepts cs ls] by simp
qed

lemma logs_waiting:
  "\<not> ready fb \<Longrightarrow> foldl (file_step accepts) fb (map FLog pre) = fb\<lparr>waiting := waiting fb @ pre\<rparr>"
proof (induction pre arbitrary: fb)
  case Nil
  show ?case by simp
next
  case (Cons m pre)
  have "\<not> ready (fb\<lparr>waiting := waiting fb @ [m]\<rparr>)" using Cons.prems by simp
  from Cons.IH [OF this] show ?case
    using Cons.prems by (simp add: FileBackend_log_def FileBackend_write_def)
qed

lemma ready_signal:
  "on_ready accepts (FileBackend_init\<lparr>waiting := pre\<rparr>)
     = ready_backend (map (join [CHR 0x0D, CHR 0x0A]) (filter (\<lambda>ms. ms \<noteq> []) [pre]))
         (refused accepts 0 (filter (\<lambda>ms. ms \<noteq> []) [pre]))"
  by (simp add: on_ready_def FileBackend_init_def FileBackend_write_def ready_backend_def Let_def
      refused_Cons refused_Nil)

lemma drain_ready:
  assumes "\<forall>messages\<in>set ls. messages \<noteq> []"
  shows "on_drain accepts (ready_backend cs ls)
       = ready_backend (cs @ map (join [CHR 0x0D, CHR 0x0A]) ls) (refused accepts (length cs) ls)"
proof -
  have "on_drain accepts (ready_backend cs ls)
      = foldl (\<lambda>f messages. FileBackend_write accepts messages f) (ready_backend cs []) ls"
    by (simp add: on_drain_def ready_backend_def)
  then show ?thesis using write_all_ready [OF assms, of accepts cs "[]"] by simp
qed

lemma refused_nonempty:
  "\<forall>messages\<in>set ws. messages \<noteq> [] \<Longrightarrow> \<forall>messages\<in>set (refused accepts n ws). messages \<noteq> []"
  by (induction ws arbitrary: n) (simp_all add: refused_Nil refused_Cons)

text \<open>
  C8, as the code has it. The messages logged before the ready signal are queued in
  \<open>waiting\<close> and nothing is written; the ready signal writes them as one chunk,
  joined by CR LF, and empties \<open>waiting\<close>; every message logged after it is written
  at once as a chunk of its own, whether or not an earlier write was refused;
  every write the sink refused has registered a listener, and the drain signal
  writes the messages of each such write again, as one chunk each.
\<close>

theorem file_backend_writes:
  "foldl (file_step accepts) FileBackend_init (map FLog pre)
           = FileBackend_init\<lparr>waiting := pre\<rparr>
       \<and> foldl (file_step accepts) FileBackend_init (map FLog pre @ [FReady])
           = ready_backend (map (join [CHR 0x0D, CHR 0x0A]) (first_write pre))
               (refused accepts 0 (first_write pre))
       \<and> foldl (file_step accepts) FileBackend_init (map FLog pre @ [FReady] @ map FLog post)
           = ready_backend (map (join [CHR 0x0D, CHR 0x0A]) (first_write pre) @ post)
               (refused accepts 0 (all_writes pre post))
       \<and> foldl (file_step accepts) FileBackend_init (map FLog pre @ [FReady] @ map FLog post @ [FDrain])
           = ready_backend
               (map (join [CHR 0x0D, CHR 0x0A]) (first_write pre) @ post
                  @ map (join [CHR 0x0D, CHR 0x0A]) (refused accepts 0 (all_writes pre post)))
               (refused accepts (length (first_write pre) + length post)
                  (refused accepts 0 (all_writes pre post)))"
proof -
  define C1 where "C1 = map (join [CHR 0x0D, CHR 0x0A]) (first_write pre)"
  define L3 where "L3 = refused accepts 0 (all_writes pre post)"
  have nr: "\<not> ready FileBackend_init" by (simp add: FileBackend_init_def)
  have a: "foldl (file_step accepts) FileBackend_init (map FLog pre) = FileBackend_init\<lparr>waiting := pre\<rparr>"
    using logs_waiting [OF nr, of accepts pre] by (simp add: FileBackend_init_def)
  have "foldl (file_step accepts) FileBackend_init (map FLog pre @ [FReady])
      = on_ready accepts (FileBackend_init\<lparr>waiting := pre\<rparr>)"
    by (simp only: foldl_append a) simp
  then have b: "foldl (file_step accepts) FileBackend_init (map FLog pre @ [FReady])
      = ready_backend C1 (refused accepts 0 (first_write pre))"
    by (simp only: ready_signal C1_def first_write_def)
  have l3: "refused accepts 0 (first_write pre) @ refused accepts (length C1) (map (\<lambda>m. [m]) post) = L3"
    by (simp add: L3_def all_writes_def refused_append C1_def)
  have "foldl (file_step accepts) FileBackend_init ((map FLog pre @ [FReady]) @ map FLog post)
      = foldl (file_step accepts) (ready_backend C1 (refused accepts 0 (first_write pre))) (map FLog post)"
    by (subst foldl_append) (simp only: b)
  also have "\<dots> = ready_backend (C1 @ post) L3"
    by (simp only: logs_ready l3)
  finally have c: "foldl (file_step accepts) FileBackend_init (map FLog pre @ [FReady] @ map FLog post)
      = ready_backend (C1 @ post) L3"
    by (simp only: append_assoc)
  have ne: "\<forall>messages\<in>set (all_writes pre post). messages \<noteq> []"
    by (auto simp: all_writes_def first_write_def)
  have ne3: "\<forall>messages\<in>set L3. messages \<noteq> []"
    unfolding L3_def by (rule refused_nonempty [OF ne])
  have "foldl (file_step accepts) FileBackend_init ((map FLog pre @ [FReady] @ map FLog post) @ [FDrain])
      = on_drain accepts (ready_backend (C1 @ post) L3)"
    by (subst foldl_append, simp only: c) simp
  also have "\<dots> = ready_backend ((C1 @ post) @ map (join [CHR 0x0D, CHR 0x0A]) L3)
      (refused accepts (length (C1 @ post)) L3)"
    by (rule drain_ready [OF ne3])
  finally have d: "foldl (file_step accepts) FileBackend_init (map FLog pre @ [FReady] @ map FLog post @ [FDrain])
      = ready_backend (C1 @ post @ map (join [CHR 0x0D, CHR 0x0A]) L3)
          (refused accepts (length (first_write pre) + length post) L3)"
    by (simp add: C1_def)
  show ?thesis
    using a b c d unfolding C1_def L3_def by (intro conjI)
qed

theorem file_backend_writes_witness:
  "foldl (file_step (\<lambda>n. n \<noteq> 1)) FileBackend_init
       (map FLog [''a'', ''b''] @ [FReady] @ map FLog [''c''] @ [FDrain])
     = ready_backend [[CHR ''a'', CHR 0x0D, CHR 0x0A, CHR ''b''], ''c'', ''c''] []"
proof -
  have d: "foldl (file_step (\<lambda>n. n \<noteq> 1)) FileBackend_init
       (map FLog [''a'', ''b''] @ [FReady] @ map FLog [''c''] @ [FDrain])
     = ready_backend
         (map (join [CHR 0x0D, CHR 0x0A]) (first_write [''a'', ''b'']) @ [''c'']
            @ map (join [CHR 0x0D, CHR 0x0A]) (refused (\<lambda>n. n \<noteq> 1) 0 (all_writes [''a'', ''b''] [''c''])))
         (refused (\<lambda>n. n \<noteq> 1) (length (first_write [''a'', ''b'']) + length [''c''])
            (refused (\<lambda>n. n \<noteq> 1) 0 (all_writes [''a'', ''b''] [''c''])))"
    using file_backend_writes [of "\<lambda>n. n \<noteq> 1" "[''a'', ''b'']" "[''c'']"] by blast
  have v: "ready_backend
         (map (join [CHR 0x0D, CHR 0x0A]) (first_write [''a'', ''b'']) @ [''c'']
            @ map (join [CHR 0x0D, CHR 0x0A]) (refused (\<lambda>n. n \<noteq> 1) 0 (all_writes [''a'', ''b''] [''c''])))
         (refused (\<lambda>n. n \<noteq> 1) (length (first_write [''a'', ''b'']) + length [''c''])
            (refused (\<lambda>n. n \<noteq> 1) 0 (all_writes [''a'', ''b''] [''c''])))
      = ready_backend [[CHR ''a'', CHR 0x0D, CHR 0x0A, CHR ''b''], ''c'', ''c''] []"
    by (simp add: first_write_def all_writes_def refused_def)
  show ?thesis by (simp only: d v)
qed


text \<open>
  C8 as stated fails: with a sink that refuses every write, the message logged
  while the first write waits for its drain signal is written at once, as a second
  chunk, and registers a listener of its own; it is not added to a pending buffer.
\<close>

theorem file_backend_backpressure_counterexample:
  "foldl (file_step (\<lambda>n. False)) FileBackend_init [FReady, FLog ''a'', FLog ''b'']
     = \<lparr>ready = True, waiting = [],
        stream = Some \<lparr>chunks = [''a'', ''b''], drainListeners = [[''a''], [''b'']]\<rparr>\<rparr>"
  by (simp add: FileBackend_init_def on_ready_def FileBackend_log_def FileBackend_write_def Let_def)


section \<open>Namespaces of a queued record\<close>

text \<open>
  C9 does not hold of the code. The record queued by \<^verbatim>\<open>log\<close> holds the reference
  to the namespace array of the facade, not a copy. In the run below the stack is
  \<^verbatim>\<open>["a"]\<close> when the message is logged and the group ends before the flush:
  the record is written with no namespace.
\<close>

theorem namespaces_follow_the_live_stack:
  "heap (group ''a'' fresh_system) (Lumberjack_namespaces fresh_system) = [''a'']
   \<and> indexedDB (backend flushed_after_group)
       = Some \<lparr>logs = [(1, Plain \<lparr>timestamp = 5, arguments = [JStr ''x''], namespaces = [],
                                   level = NOTICE, contextId = None, message = ''x''\<rparr>)],
               keygen = 2, inflight = []\<rparr>"
  by (simp add: flushed_after_group_def logged_in_group_def fresh_system_def group_def groupEnd_def
      sendToBackend_def IndexedDBBackend_log_def encode_def system_flush_def flush_def
      flushToDatabase_def transaction_event_def addData_def defaultOptions_def idle_database_def
      identity_platform_def snapshot_def keyed_def Let_def)


end
